theory Spec2Isabelle
  imports Complex_Main
begin

section \<open>Data model\<close>

text \<open>
  The module \<^verbatim>\<open>torchrl/envs/utils.py\<close> relocates named tensors between nested,
  dictionary-like batches. A key path is the unravelled form of a nested key: a list of
  segments; a one-segment list stands for the plain string key.
\<close>

type_synonym key = "string list"

text \<open>Python exceptions, by class, with the message.\<close>

datatype exn =
    RuntimeError string
  | KeyError string
  | AttributeError string
  | ValueError string
  | TypeError string

fun is_RuntimeError :: "exn \<Rightarrow> bool" where
  "is_RuntimeError (RuntimeError m) = True"
| "is_RuntimeError e = False"

fun str :: "exn \<Rightarrow> string" where
  "str (RuntimeError m) = m"
| "str (KeyError m) = m"
| "str (AttributeError m) = m"
| "str (ValueError m) = m"
| "str (TypeError m) = m"

text \<open>
  A tensor is a shape with its elements in row-major order; two element kinds are
  enough for the module: booleans (done, terminated, truncated, reset masks) and
  numbers (everything that is only moved around).
\<close>

datatype tensor =
    BoolT "nat list" "bool list"
  | FloatT "nat list" "real list"

fun shape :: "tensor \<Rightarrow> nat list" where
  "shape (BoolT s d) = s"
| "shape (FloatT s d) = s"

definition ndim :: "tensor \<Rightarrow> nat" where
  "ndim t = length (shape t)"

text \<open>
  A batch entry is a leaf tensor, a plain batch (its batch shape and its entries in
  insertion order, as a Python dict keeps them), a lazily stacked batch (the stacked
  variant: a sequence of batches, stacked along dimension 0, whose members may differ in
  their key sets and leaf shapes), an entry whose lookup raises (a lazily computed or
  storage-backed value that cannot be materialised), or a Python object that is neither a
  tensor nor a batch. \<^verbatim>\<open>_set_str(..., validated=True)\<close> stores what it is given without a
  check, so a batch can come to hold \<^verbatim>\<open>None\<close>, or the \<^verbatim>\<open>NO_DEFAULT\<close> object of
  \<^verbatim>\<open>torchrl.data.tensor_specs\<close>.
\<close>

datatype pyobj = PyNone | NoDefault

datatype node =
    Leaf tensor
  | TD "nat list" "(string \<times> node) list"
  | LazyStack "node list"
  | Failing exn
  | Obj pyobj

fun is_tensor_collection :: "node \<Rightarrow> bool" where
  "is_tensor_collection (TD bs es) = True"
| "is_tensor_collection (LazyStack xs) = True"
| "is_tensor_collection v = False"

subsection \<open>Results that may raise\<close>

fun sequence :: "('e + 'a) list \<Rightarrow> 'e + 'a list" where
  "sequence [] = Inr []"
| "sequence (Inl e # rs) = Inl e"
| "sequence (Inr x # rs) = (case sequence rs of Inl e \<Rightarrow> Inl e | Inr xs \<Rightarrow> Inr (x # xs))"

subsection \<open>Tensor stacking\<close>

fun to_float :: "tensor \<Rightarrow> real list" where
  "to_float (FloatT s d) = d"
| "to_float (BoolT s d) = map (\<lambda>b. if b then 1 else 0) d"

fun is_bool :: "tensor \<Rightarrow> bool" where
  "is_bool (BoolT s d) = True"
| "is_bool (FloatT s d) = False"

fun bool_data :: "tensor \<Rightarrow> bool list" where
  "bool_data (BoolT s d) = d"
| "bool_data (FloatT s d) = []"

definition HET_MESSAGE :: string where
  "HET_MESSAGE = ''Found more than one unique shape in the tensors to be stacked''"

text \<open>\<^verbatim>\<open>torch.stack(tensors, 0)\<close>, with the message the stacked batch gives when the
  shapes differ; mixed element kinds are promoted to numbers.\<close>

definition stack_tensors :: "tensor list \<Rightarrow> exn + tensor" where
  "stack_tensors ts =
     (case ts of
        [] \<Rightarrow> Inl (RuntimeError ''stack expects a non-empty TensorList'')
      | t # rest \<Rightarrow>
          if \<forall>u \<in> set rest. shape u = shape t then
            (if \<forall>u \<in> set ts. is_bool u
             then Inr (BoolT (length ts # shape t) (concat (map bool_data ts)))
             else Inr (FloatT (length ts # shape t) (concat (map to_float ts))))
          else Inl (RuntimeError HET_MESSAGE))"

fun chunks :: "nat \<Rightarrow> nat \<Rightarrow> 'a list \<Rightarrow> 'a list list" where
  "chunks 0 c xs = []"
| "chunks (Suc n) c xs = take c xs # chunks n c (drop c xs)"

text \<open>\<^verbatim>\<open>tensor.unbind(0)\<close>.\<close>

fun unbind_tensor :: "tensor \<Rightarrow> exn + tensor list" where
  "unbind_tensor (BoolT [] d) = Inl (RuntimeError ''Dimension specified as 0 but tensor has no dimensions'')"
| "unbind_tensor (FloatT [] d) = Inl (RuntimeError ''Dimension specified as 0 but tensor has no dimensions'')"
| "unbind_tensor (BoolT (n # s) d) = Inr (map (BoolT s) (chunks n (prod_list s) d))"
| "unbind_tensor (FloatT (n # s) d) = Inr (map (FloatT s) (chunks n (prod_list s) d))"

subsection \<open>The batch container's operations\<close>

fun lookup :: "(string \<times> 'a) list \<Rightarrow> string \<Rightarrow> 'a option" where
  "lookup [] k = None"
| "lookup ((k', v) # es) k = (if k' = k then Some v else lookup es k)"

text \<open>Assignment in a Python dict: an existing key keeps its place, a new one goes last.\<close>

fun upd :: "string \<Rightarrow> 'a \<Rightarrow> (string \<times> 'a) list \<Rightarrow> (string \<times> 'a) list" where
  "upd k v [] = [(k, v)]"
| "upd k v ((k', v') # es) = (if k' = k then (k, v) # es else (k', v') # upd k v es)"

fun delete :: "string \<Rightarrow> (string \<times> 'a) list \<Rightarrow> (string \<times> 'a) list" where
  "delete k [] = []"
| "delete k ((k', v') # es) = (if k' = k then delete k es else (k', v') # delete k es)"

text \<open>What stacking the members' values gives: a stacked tensor, a stacked batch, the
  default when a member misses the key, or the failure.\<close>

definition stack_values :: "node list \<Rightarrow> exn + node option" where
  "stack_values vs =
     (if vs = [] then Inr None
      else if \<forall>v \<in> set vs. is_tensor_collection v then Inr (Some (LazyStack vs))
      else if \<forall>v \<in> set vs. (case v of Leaf t \<Rightarrow> True | _ \<Rightarrow> False) then
        (case stack_tensors (map (\<lambda>v. case v of Leaf t \<Rightarrow> t) vs) of
           Inl e \<Rightarrow> Inl e
         | Inr t \<Rightarrow> Inr (Some (Leaf t)))
      else Inl (RuntimeError ''cannot stack tensors and tensor collections''))"

fun collect :: "(exn + node option) list \<Rightarrow> exn + node list option" where
  "collect [] = Inr (Some [])"
| "collect (Inl e # rs) = Inl e"
| "collect (Inr None # rs) = Inr None"
| "collect (Inr (Some v) # rs) =
     (case collect rs of Inl e \<Rightarrow> Inl e | Inr None \<Rightarrow> Inr None | Inr (Some vs) \<Rightarrow> Inr (Some (v # vs)))"

text \<open>\<^verbatim>\<open>td._get_str(key, None)\<close>: the entry, \<open>None\<close> when the key is absent; an entry
  holding \<^verbatim>\<open>None\<close> reads as an absent one.\<close>

fun get_str :: "node \<Rightarrow> string \<Rightarrow> exn + node option" where
  "get_str (TD bs es) k =
     (case lookup es k of
        None \<Rightarrow> Inr None
      | Some (Failing e) \<Rightarrow> Inl e
      | Some (Obj PyNone) \<Rightarrow> Inr None
      | Some v \<Rightarrow> Inr (Some v))"
| "get_str (LazyStack xs) k =
     (case collect (map (\<lambda>x. get_str x k) xs) of
        Inl e \<Rightarrow> Inl e
      | Inr None \<Rightarrow> Inr None
      | Inr (Some vs) \<Rightarrow> stack_values vs)"
| "get_str (Leaf t) k = Inl (AttributeError ''Tensor object has no attribute _get_str'')"
| "get_str (Failing e) k = Inl e"
| "get_str (Obj v) k = Inl (AttributeError ''object has no attribute _get_str'')"

text \<open>\<^verbatim>\<open>td.get(key)\<close> for a one-segment key: a missing key raises.\<close>

definition get :: "node \<Rightarrow> string \<Rightarrow> exn + node" where
  "get x k = (case get_str x k of Inl e \<Rightarrow> Inl e | Inr None \<Rightarrow> Inl (KeyError k) | Inr (Some v) \<Rightarrow> Inr v)"


lemma size_entry [termination_simp]:
  "(k, v) \<in> set es \<Longrightarrow> size (v::node) < Suc (size_list (size_prod (\<lambda>_. 0) size) es)"
  by (induction es) auto

lemma size_lookup:
  "lookup es k = Some v \<Longrightarrow> size (v::node) < Suc (size_list (size_prod (\<lambda>_. 0) size) es)"
  by (induction es) (auto split: if_splits)

text \<open>\<^verbatim>\<open>td.unbind(0)\<close>: the members of a stack, the slices of a tensor, the slices of a
  plain batch (every entry sliced).\<close>

fun unbind :: "node \<Rightarrow> exn + node list" where
  "unbind (LazyStack vs) = Inr vs"
| "unbind (Leaf t) = (case unbind_tensor t of Inl e \<Rightarrow> Inl e | Inr ts \<Rightarrow> Inr (map Leaf ts))"
| "unbind (TD [] es) = Inl (RuntimeError ''Cannot unbind a batch with an empty batch shape'')"
| "unbind (TD (n # bs) es) =
     (case sequence (map (\<lambda>(k, v). unbind v) es) of
        Inl e \<Rightarrow> Inl e
      | Inr cols \<Rightarrow>
          if \<forall>c \<in> set cols. length c = n
          then Inr (map (\<lambda>i. TD bs (zip (map fst es) (map (\<lambda>c. c ! i) cols))) [0..<n])
          else Inl (RuntimeError ''batch dimension mismatch''))"
| "unbind (Failing e) = Inl e"
| "unbind (Obj v) = Inl (AttributeError ''object has no attribute unbind'')"

text \<open>\<^verbatim>\<open>td._set_str(key, value, inplace=False, validated=True)\<close>; on a stack the value
  is split along the stack dimension and each member receives its slice.\<close>

fun set_all :: "node list \<Rightarrow> string \<Rightarrow> node list \<Rightarrow> (exn + node) list"
  and set_str :: "node \<Rightarrow> string \<Rightarrow> node \<Rightarrow> exn + node" where
  "set_all [] k vs = []"
| "set_all (x # xs) k [] = []"
| "set_all (x # xs) k (v # vs) = set_str x k v # set_all xs k vs"
| "set_str (TD bs es) k v = Inr (TD bs (upd k v es))"
| "set_str (LazyStack xs) k v =
     (case unbind v of
        Inl e \<Rightarrow> Inl e
      | Inr vs \<Rightarrow>
          if length vs = length xs
          then (case sequence (set_all xs k vs) of Inl e \<Rightarrow> Inl e | Inr xs' \<Rightarrow> Inr (LazyStack xs'))
          else Inl (RuntimeError ''batch dimension mismatch''))"
| "set_str (Leaf t) k v = Inl (AttributeError ''Tensor object has no attribute _set_str'')"
| "set_str (Failing e) k v = Inl e"
| "set_str (Obj x) k v = Inl (AttributeError ''object has no attribute _set_str'')"

text \<open>\<^verbatim>\<open>td.empty()\<close>: same batch shape, no entries.\<close>

fun empty :: "node \<Rightarrow> exn + node" where
  "empty (TD bs es) = Inr (TD bs [])"
| "empty (LazyStack xs) =
     (case sequence (map empty xs) of Inl e \<Rightarrow> Inl e | Inr xs' \<Rightarrow> Inr (LazyStack xs'))"
| "empty (Leaf t) = Inl (AttributeError ''Tensor object has no attribute empty'')"
| "empty (Failing e) = Inl e"
| "empty (Obj v) = Inl (AttributeError ''object has no attribute empty'')"

text \<open>\<^verbatim>\<open>td.keys()\<close>: the first-level keys; a stack shows the keys all its members share.\<close>

fun keys :: "node \<Rightarrow> exn + string list" where
  "keys (TD bs es) = Inr (map fst es)"
| "keys (LazyStack []) = Inr []"
| "keys (LazyStack (x # xs)) =
     (case sequence (map keys (x # xs)) of
        Inl e \<Rightarrow> Inl e
      | Inr kss \<Rightarrow> Inr (filter (\<lambda>k. \<forall>ks \<in> set kss. k \<in> set ks) (hd kss)))"
| "keys (Leaf t) = Inl (AttributeError ''Tensor object has no attribute keys'')"
| "keys (Failing e) = Inl e"
| "keys (Obj v) = Inl (AttributeError ''object has no attribute keys'')"


section \<open>Copying keys during a transition\<close>

text \<open>
  The pattern of the heterogeneous-shape condition. \<^verbatim>\<open>re.match\<close> anchors at the start
  of the message and the pattern has no metacharacter, so a message matches when the
  pattern is a prefix of it.
\<close>

definition HET_PATTERN :: string where
  "HET_PATTERN = ''Found more than one unique shape in the tensors''"

definition re_match :: "string \<Rightarrow> string \<Rightarrow> bool" where
  "re_match pat s = (take (length pat) s = pat)"

text \<open>The test of both handlers: \<^verbatim>\<open>except RuntimeError as err\<close>, then \<^verbatim>\<open>re.match\<close> on
  \<^verbatim>\<open>str(err)\<close>.\<close>

definition is_het_error :: "exn \<Rightarrow> bool" where
  "is_het_error err = (is_RuntimeError err \<and> re_match HET_PATTERN (str err))"

text \<open>
  A sub-batch taken out of the destination is the destination's own object: what is
  written into it shows in the destination, also when the copy stops early.
\<close>

definition write_back :: "node option \<Rightarrow> node \<Rightarrow> string \<Rightarrow> node \<Rightarrow> node" where
  "write_back held dest k new_val =
     (case held of
        None \<Rightarrow> dest
      | Some v \<Rightarrow> (case set_str dest k new_val of Inl e \<Rightarrow> dest | Inr dest' \<Rightarrow> dest'))"

text \<open>
  \<^verbatim>\<open>_set(source, dest, key, total_key, excluded)\<close>. The destination is mutated in place,
  so the model returns it next to the result, also when the call raises.
  \<open>u_set_keys\<close> is the loop over \<^verbatim>\<open>val.keys()\<close>, \<open>u_set_het\<close> the loop over the
  members of a stacked source and destination.
\<close>

function (sequential)
  u_set :: "node \<Rightarrow> node \<Rightarrow> string \<Rightarrow> key \<Rightarrow> key set \<Rightarrow> (exn + bool) \<times> node"
  and u_set_keys :: "node \<Rightarrow> node \<Rightarrow> string list \<Rightarrow> key \<Rightarrow> key set \<Rightarrow> bool \<Rightarrow> (exn + bool) \<times> node"
  and u_set_het :: "node list \<Rightarrow> node list \<Rightarrow> string \<Rightarrow> key \<Rightarrow> key set \<Rightarrow> bool \<Rightarrow> (exn + bool) \<times> node list"
where
  "u_set source dest key total_key0 excluded =
     (let total_key = total_key0 @ [key] in
      if total_key \<in> excluded then (Inr False, dest)
      else
        (case
           (case get source key of
              Inl err \<Rightarrow> (Inl err, dest)
            | Inr val \<Rightarrow>
                if is_tensor_collection val then
                  (case get_str dest key of
                     Inl err \<Rightarrow> (Inl err, dest)
                   | Inr held \<Rightarrow>
                       (case (case held of Some v \<Rightarrow> Inr v | None \<Rightarrow> empty val) of
                          Inl err \<Rightarrow> (Inl err, dest)
                        | Inr new_val \<Rightarrow>
                            (case keys val of
                               Inl err \<Rightarrow> (Inl err, dest)
                             | Inr subkeys \<Rightarrow>
                                 (case u_set_keys val new_val subkeys total_key excluded False of
                                    (Inl err, new_val') \<Rightarrow> (Inl err, write_back held dest key new_val')
                                  | (Inr non_empty_local, new_val') \<Rightarrow>
                                      if non_empty_local then
                                        (case set_str dest key new_val' of
                                           Inl err \<Rightarrow> (Inl err, write_back held dest key new_val')
                                         | Inr dest' \<Rightarrow> (Inr True, dest'))
                                      else (Inr False, write_back held dest key new_val')))))
                else
                  (case set_str dest key val of
                     Inl err \<Rightarrow> (Inl err, dest)
                   | Inr dest' \<Rightarrow> (Inr True, dest')))
         of
           (Inr non_empty, dest') \<Rightarrow> (Inr non_empty, dest')
         | (Inl err, dest') \<Rightarrow>
             if is_het_error err then
               (case source of
                  LazyStack s_tds \<Rightarrow>
                    (case dest' of
                       LazyStack d_tds \<Rightarrow>
                         (case u_set_het s_tds d_tds key total_key excluded False of
                            (r, d_tds') \<Rightarrow> (r, LazyStack d_tds'))
                     | _ \<Rightarrow> (Inl (AttributeError ''object has no attribute tensordicts''), dest'))
                | _ \<Rightarrow> (Inl (AttributeError ''object has no attribute tensordicts''), dest'))
             else (Inl err, dest')))"
| "u_set_keys val new_val [] total_key excluded non_empty_local = (Inr non_empty_local, new_val)"
| "u_set_keys val new_val (subkey # rest) total_key excluded non_empty_local =
     (case u_set val new_val subkey total_key excluded of
        (Inl err, new_val') \<Rightarrow> (Inl err, new_val')
      | (Inr b, new_val') \<Rightarrow> u_set_keys val new_val' rest total_key excluded (b \<or> non_empty_local))"
| "u_set_het [] d_tds key total_key excluded non_empty_local = (Inr non_empty_local, d_tds)"
| "u_set_het (s_td # ss) [] key total_key excluded non_empty_local = (Inr non_empty_local, [])"
| "u_set_het (s_td # ss) (d_td # ds) key total_key excluded non_empty_local =
     (case u_set s_td d_td key total_key excluded of
        (Inl err, d_td') \<Rightarrow> (Inl err, d_td' # ds)
      | (Inr b, d_td') \<Rightarrow>
          (case u_set_het ss ds key total_key excluded (b \<or> non_empty_local) of
             (r, ds') \<Rightarrow> (r, d_td' # ds')))"
  by pat_completeness auto


lemma collect_Cons_Some:
  "collect (r # rs) = Inr (Some vs) \<longleftrightarrow>
     (\<exists>v vs'. r = Inr (Some v) \<and> collect rs = Inr (Some vs') \<and> vs = v # vs')"
proof (cases r)
  case (Inl e)
  then show ?thesis by simp
next
  case (Inr o1)
  then show ?thesis
    by (cases o1) (auto split: sum.splits option.splits)
qed

lemma collect_size:
  assumes "collect (map (\<lambda>x. get_str x k) xs) = Inr (Some vs)"
    and "\<And>x v. x \<in> set xs \<Longrightarrow> get_str x k = Inr (Some v) \<Longrightarrow> size v < size x"
  shows "size_list size vs \<le> size_list size xs \<and> (xs \<noteq> [] \<longrightarrow> size_list size vs < size_list size xs)"
  using assms
proof (induction xs arbitrary: vs)
  case Nil
  then show ?case by simp
next
  case (Cons x xs)
  from Cons.prems(1) obtain v vs' where
    v: "get_str x k = Inr (Some v)" and vs': "collect (map (\<lambda>x. get_str x k) xs) = Inr (Some vs')"
    and eq: "vs = v # vs'"
    by (auto simp: collect_Cons_Some)
  have "size v < size x" using Cons.prems(2) v by simp
  moreover have "size_list size vs' \<le> size_list size xs"
    using Cons.IH [OF vs'] Cons.prems(2) by simp
  ultimately show ?case using eq by simp
qed

lemma stack_values_size:
  "stack_values vs = Inr (Some v) \<Longrightarrow> size v \<le> Suc (size_list size vs)"
  by (auto simp: stack_values_def split: if_splits sum.splits)

lemma stack_values_nonempty: "stack_values vs = Inr (Some v) \<Longrightarrow> vs \<noteq> []"
  by (auto simp: stack_values_def)

lemma get_str_size: "get_str x k = Inr (Some v) \<Longrightarrow> size v < size x"
proof (induction x k arbitrary: v rule: get_str.induct)
  case (1 bs es k)
  then show ?case
    by (auto split: option.splits node.splits pyobj.splits dest: size_lookup)
next
  case (2 xs k)
  from "2.prems" obtain vs where
    c: "collect (map (\<lambda>x. get_str x k) xs) = Inr (Some vs)" and s: "stack_values vs = Inr (Some v)"
    by (auto split: sum.splits option.splits)
  have ne: "xs \<noteq> []" using c stack_values_nonempty [OF s] by auto
  have "size_list size vs < size_list size xs"
    using collect_size [OF c] "2.IH" ne by blast
  then show ?case using stack_values_size [OF s] by simp
qed simp_all

lemma get_size [termination_simp]: "get x k = Inr v \<Longrightarrow> size v < size x"
  by (auto simp: get_def split: sum.splits option.splits dest: get_str_size)

termination u_set
  by (relation "inv_image (less_than <*lex*> less_than <*lex*> less_than)
        (\<lambda>a. case a of
           Inl (source, dest, key, total_key, excluded) \<Rightarrow> (size source, 0::nat, 0::nat)
         | Inr (Inl (val, new_val, subkeys, total_key, excluded, b)) \<Rightarrow> (size val, 1, length subkeys)
         | Inr (Inr (s_tds, d_tds, key, total_key, excluded, b)) \<Rightarrow> (size_list size s_tds, 1, length s_tds))")
    (auto dest: get_size)


text \<open>
  \<^verbatim>\<open>_set_single_key(source, dest, key)\<close>, with \<^verbatim>\<open>clone=False\<close> and \<^verbatim>\<open>device=None\<close> as
  every caller in the module leaves them. The loop walks the key's segments; when a
  segment holds a sub-batch, source and destination both step into it for the segments
  that follow. A segment absent from the source gives \<^verbatim>\<open>None\<close>, which is not a
  batch: it is stored in the destination like a tensor, and the call goes on.

  \<open>u_set_single_key_try\<close> is the body of the \<^verbatim>\<open>try\<close> for one segment: it raises, or
  says where the loop goes on. \<open>u_set_single_key_het\<close> is the handler's loop over the
  members of a stack.
\<close>

datatype step =
    Descend node node node
  | Stay node

definition u_set_single_key_try :: "node \<Rightarrow> node \<Rightarrow> string \<Rightarrow> exn + step" where
  "u_set_single_key_try source dest k =
     (case get_str source k of
        Inl err \<Rightarrow> Inl err
      | Inr held \<Rightarrow>
          let val = (case held of None \<Rightarrow> Obj PyNone | Some v \<Rightarrow> v) in
          if is_tensor_collection val then
            (case get_str dest k of
               Inl err \<Rightarrow> Inl err
             | Inr (Some new_val) \<Rightarrow> Inr (Descend val new_val dest)
             | Inr None \<Rightarrow>
                 (case empty val of
                    Inl err \<Rightarrow> Inl err
                  | Inr new_val \<Rightarrow>
                      (case set_str dest k new_val of
                         Inl err \<Rightarrow> Inl err
                       | Inr dest1 \<Rightarrow> Inr (Descend val new_val dest1))))
          else
            (case set_str dest k val of
               Inl err \<Rightarrow> Inl err
             | Inr dest1 \<Rightarrow> Inr (Stay dest1)))"

lemma u_set_single_key_try_size [termination_simp]:
  "u_set_single_key_try source dest k = Inr (Descend val new_val dest1) \<Longrightarrow> size val < size source"
  by (auto simp: u_set_single_key_try_def split: sum.splits option.splits if_splits
      dest: get_str_size)

function (sequential)
  u_set_single_key :: "node \<Rightarrow> node \<Rightarrow> key \<Rightarrow> (exn + unit) \<times> node"
  and u_set_single_key_het :: "node list \<Rightarrow> node list \<Rightarrow> string \<Rightarrow> (exn + unit) \<times> node list"
where
  "u_set_single_key source dest [] = (Inr (), dest)"
| "u_set_single_key source dest (k # ks) =
     (case u_set_single_key_try source dest k of
        Inr (Descend val new_val dest1) \<Rightarrow>
          (case u_set_single_key val new_val ks of
             (r, new_val') \<Rightarrow> (r, write_back (Some new_val) dest1 k new_val'))
      | Inr (Stay dest1) \<Rightarrow> u_set_single_key source dest1 ks
      | Inl err \<Rightarrow>
          if is_het_error err then
            (case source of
               LazyStack s_tds \<Rightarrow>
                 (case dest of
                    LazyStack d_tds \<Rightarrow>
                      (case u_set_single_key_het s_tds d_tds k of
                         (r, d_tds') \<Rightarrow> (r, LazyStack d_tds'))
                  | _ \<Rightarrow> (Inl (AttributeError ''object has no attribute tensordicts''), dest))
             | _ \<Rightarrow> (Inl (AttributeError ''object has no attribute tensordicts''), dest))
          else (Inl err, dest))"
| "u_set_single_key_het [] d_tds k = (Inr (), d_tds)"
| "u_set_single_key_het (s_td # ss) [] k = (Inr (), [])"
| "u_set_single_key_het (s_td # ss) (d_td # ds) k =
     (case u_set_single_key s_td d_td [k] of
        (Inl err, d_td') \<Rightarrow> (Inl err, d_td' # ds)
      | (Inr u, d_td') \<Rightarrow>
          (case u_set_single_key_het ss ds k of (r, ds') \<Rightarrow> (r, d_td' # ds')))"
  by pat_completeness auto

termination u_set_single_key
  by (relation "inv_image (less_than <*lex*> less_than)
        (\<lambda>a. case a of
           Inl (source, dest, ks) \<Rightarrow> (size source, length ks)
         | Inr (s_tds, d_tds, k) \<Rightarrow> (size_list size s_tds, length s_tds))")
    (auto dest: u_set_single_key_try_size)


subsection \<open>Merging one batch into another\<close>

lemma sequence_Cons_Inr:
  "sequence (r # rs) = Inr ys \<longleftrightarrow> (\<exists>x xs. r = Inr x \<and> sequence rs = Inr xs \<and> ys = x # xs)"
  by (cases r) (auto split: sum.splits)

lemma sequence_map_Inr:
  "sequence (map f xs) = Inr ys \<Longrightarrow> length ys = length xs \<and> (\<forall>i < length xs. f (xs ! i) = Inr (ys ! i))"
proof (induction xs arbitrary: ys)
  case Nil
  then show ?case by simp
next
  case (Cons x xs)
  from Cons.prems obtain y ys' where y: "f x = Inr y" and ys': "sequence (map f xs) = Inr ys'"
    and eq: "ys = y # ys'"
    by (auto simp: sequence_Cons_Inr)
  from Cons.IH [OF ys'] show ?case using y eq
    by (auto simp: nth_Cons split: nat.splits)
qed

lemma size_list_nth_sum:
  assumes "length vs = length es" and "\<forall>j < length es. size (vs ! j :: node) \<le> size (snd (es ! j) :: node)"
    and "length ks = length es"
  shows "size_list (size_prod (\<lambda>_. 0) size) (zip ks vs) \<le> size_list (size_prod (\<lambda>_. 0) size) es"
  using assms
proof (induction es arbitrary: vs ks)
  case Nil
  then show ?case by simp
next
  case (Cons e es)
  then obtain v vs' k ks' where vs: "vs = v # vs'" and ks: "ks = k # ks'"
    by (cases vs; cases ks) auto
  have "size v \<le> size (snd e)" using Cons.prems(2) vs by force
  moreover have "size_list (size_prod (\<lambda>_. 0) size) (zip ks' vs') \<le> size_list (size_prod (\<lambda>_. 0) size) es"
    using Cons.prems vs ks by (intro Cons.IH) auto
  ultimately show ?case using vs ks by (cases e) auto
qed

lemma size_member: "s \<in> set vs \<Longrightarrow> size (s::node) < Suc (size_list size vs)"
  by (induction vs) auto

lemma unbind_size: "unbind v = Inr vs \<Longrightarrow> s \<in> set vs \<Longrightarrow> size s \<le> size v"
proof (induction v arbitrary: vs s rule: unbind.induct)
  case (1 vs')
  then show ?case using size_member [of s vs] by simp
next
  case (2 t)
  then show ?case by (auto split: sum.splits)
next
  case (3 es)
  then show ?case by simp
next
  case (4 n bs es)
  from "4.prems"(1) obtain cols where
    cols: "sequence (map (\<lambda>(k, v). unbind v) es) = Inr cols"
    and len: "\<forall>c \<in> set cols. length c = n"
    and vs: "vs = map (\<lambda>i. TD bs (zip (map fst es) (map (\<lambda>c. c ! i) cols))) [0..<n]"
    by (auto split: sum.splits if_splits)
  from "4.prems"(2) vs obtain i where i: "i < n" and s: "s = TD bs (zip (map fst es) (map (\<lambda>c. c ! i) cols))"
    by auto
  from sequence_map_Inr [OF cols] have l: "length cols = length es"
    and each: "\<forall>j < length es. (\<lambda>(k, v). unbind v) (es ! j) = Inr (cols ! j)" by auto
  have "\<forall>j < length es. size (map (\<lambda>c. c ! i) cols ! j) \<le> size (snd (es ! j))"
  proof (intro allI impI)
    fix j assume j: "j < length es"
    obtain k v where kv: "es ! j = (k, v)" by (cases "es ! j")
    have mem: "(k, v) \<in> set es" using j kv by (metis nth_mem)
    have u: "unbind v = Inr (cols ! j)" using each j kv by auto
    have "length (cols ! j) = n" using len l j by simp
    then have "cols ! j ! i \<in> set (cols ! j)" using i by simp
    from "4.IH" [OF mem refl u this] show "size (map (\<lambda>c. c ! i) cols ! j) \<le> size (snd (es ! j))"
      using kv j l by simp
  qed
  then have "size_list (size_prod (\<lambda>_. 0) size) (zip (map fst es) (map (\<lambda>c. c ! i) cols))
      \<le> size_list (size_prod (\<lambda>_. 0) size) es"
    using l by (intro size_list_nth_sum) auto
  then show ?case using s by simp
qed simp_all


text \<open>
  \<^verbatim>\<open>dest.update(src)\<close>: every entry of \<open>src\<close> is written into \<open>dest\<close>; where both hold
  a sub-batch under the key, the sub-batches are merged in turn. A stacked destination
  is updated member by member.
\<close>

function (sequential)
  td_update :: "node \<Rightarrow> node \<Rightarrow> exn + node"
  and update_keys :: "node \<Rightarrow> node \<Rightarrow> string list \<Rightarrow> exn + node"
where
  "td_update (TD bs es) src =
     (case keys src of Inl e \<Rightarrow> Inl e | Inr ks \<Rightarrow> update_keys (TD bs es) src ks)"
| "td_update (LazyStack xs) src =
     (case unbind src of
        Inl e \<Rightarrow> Inl e
      | Inr ss \<Rightarrow>
          if length ss = length xs
          then (case sequence (map (\<lambda>(x, s). td_update x s) (zip xs ss)) of
                  Inl e \<Rightarrow> Inl e
                | Inr xs' \<Rightarrow> Inr (LazyStack xs'))
          else Inl (RuntimeError ''batch dimension mismatch''))"
| "td_update (Leaf t) src = Inl (AttributeError ''Tensor object has no attribute update'')"
| "td_update (Failing e) src = Inl e"
| "td_update (Obj v) src = Inl (AttributeError ''object has no attribute update'')"
| "update_keys dest src [] = Inr dest"
| "update_keys dest src (k # ks) =
     (case get src k of
        Inl e \<Rightarrow> Inl e
      | Inr val \<Rightarrow>
          (case
             (if is_tensor_collection val then
                (case get_str dest k of
                   Inl e \<Rightarrow> Inl e
                 | Inr None \<Rightarrow> set_str dest k val
                 | Inr (Some target) \<Rightarrow>
                     if is_tensor_collection target
                     then (case td_update target val of
                             Inl e \<Rightarrow> Inl e
                           | Inr target' \<Rightarrow> set_str dest k target')
                     else set_str dest k val)
              else set_str dest k val)
           of
             Inl e \<Rightarrow> Inl e
           | Inr dest' \<Rightarrow> update_keys dest' src ks))"
  by pat_completeness auto

termination td_update
  apply (relation "inv_image (less_than <*lex*> less_than <*lex*> less_than)
        (\<lambda>a. case a of
           Inl (dest, src) \<Rightarrow> (size src, 1::nat, size dest)
         | Inr (dest, src, ks) \<Rightarrow> (size src, 0, length ks))")
  subgoal by auto
  subgoal by simp
  subgoal for xs src ss z x s
    using unbind_size [of src ss s] size_member [of x xs] set_zip_rightD [of x s xs ss]
      set_zip_leftD [of x s xs ss]
    by auto
  subgoal by (auto dest: get_size)
  subgoal by simp
  done


section \<open>The stateless transition\<close>

text \<open>
  The exclusion set of \<^verbatim>\<open>step_mdp\<close> and of \<^verbatim>\<open>_StepMDP.__init__\<close>: the union of the reward,
  done and action keys whose flag is set. Keys are given in their unravelled form.
\<close>

definition exclusion :: "bool \<Rightarrow> bool \<Rightarrow> bool \<Rightarrow> key list \<Rightarrow> key list \<Rightarrow> key list \<Rightarrow> key set" where
  "exclusion exclude_reward exclude_done exclude_action reward_keys done_keys action_keys =
     (if exclude_reward then set reward_keys else {})
     \<union> (if exclude_done then set done_keys else {})
     \<union> (if exclude_action then set action_keys else {})"

text \<open>The three loops of the transition; what \<^verbatim>\<open>_set\<close> returns is dropped, a raise ends
  the call.\<close>

fun copy_root :: "node \<Rightarrow> node \<Rightarrow> string list \<Rightarrow> key set \<Rightarrow> exn + node" where
  "copy_root tensordict out [] excluded = Inr out"
| "copy_root tensordict out (key # ks) excluded =
     (if key \<noteq> ''next'' then
        (case u_set tensordict out key [] excluded of
           (Inl err, out') \<Rightarrow> Inl err
         | (Inr b, out') \<Rightarrow> copy_root tensordict out' ks excluded)
      else copy_root tensordict out ks excluded)"

fun copy_actions :: "node \<Rightarrow> node \<Rightarrow> key list \<Rightarrow> exn + node" where
  "copy_actions tensordict out [] = Inr out"
| "copy_actions tensordict out (action_key # ks) =
     (case u_set_single_key tensordict out action_key of
        (Inl err, out') \<Rightarrow> Inl err
      | (Inr u, out') \<Rightarrow> copy_actions tensordict out' ks)"

fun copy_next :: "node \<Rightarrow> node \<Rightarrow> string list \<Rightarrow> key set \<Rightarrow> exn + node" where
  "copy_next next_td out [] excluded = Inr out"
| "copy_next next_td out (key # ks) excluded =
     (case u_set next_td out key [] excluded of
        (Inl err, out') \<Rightarrow> Inl err
      | (Inr b, out') \<Rightarrow> copy_next next_td out' ks excluded)"

text \<open>The body shared by \<^verbatim>\<open>step_mdp\<close> and by the fallback branch of
  \<^verbatim>\<open>_StepMDP.__call__\<close>, from \<^verbatim>\<open>total_key = ()\<close> on.\<close>

definition generic_copy ::
  "node \<Rightarrow> node \<Rightarrow> node \<Rightarrow> bool \<Rightarrow> bool \<Rightarrow> key list \<Rightarrow> key set \<Rightarrow> exn + node" where
  "generic_copy tensordict next_td out keep_other exclude_action action_keys excluded =
     (case
        (if keep_other then
           (case keys tensordict of
              Inl err \<Rightarrow> Inl err
            | Inr ks \<Rightarrow> copy_root tensordict out ks excluded)
         else if \<not> exclude_action then copy_actions tensordict out action_keys
         else Inr out)
      of
        Inl err \<Rightarrow> Inl err
      | Inr out1 \<Rightarrow>
          (case keys next_td of
             Inl err \<Rightarrow> Inl err
           | Inr ks \<Rightarrow> copy_next next_td out1 ks excluded))"

text \<open>
  \<^verbatim>\<open>step_mdp(tensordict, next_tensordict, keep_other, exclude_reward, exclude_done,
  exclude_action, reward_keys, done_keys, action_keys)\<close>, the key arguments as lists.
\<close>

function step_mdp ::
  "node \<Rightarrow> node option \<Rightarrow> bool \<Rightarrow> bool \<Rightarrow> bool \<Rightarrow> bool \<Rightarrow> key list \<Rightarrow> key list \<Rightarrow> key list
   \<Rightarrow> exn + node" where
  "step_mdp tensordict next_tensordict keep_other exclude_reward exclude_done exclude_action
     reward_keys done_keys action_keys =
     (case tensordict of
        LazyStack tensordicts \<Rightarrow>
          (case
             (case next_tensordict of
                Some nt \<Rightarrow> (case unbind nt of Inl err \<Rightarrow> Inl err | Inr nts \<Rightarrow> Inr (map Some nts))
              | None \<Rightarrow> Inr (replicate (length tensordicts) None))
           of
             Inl err \<Rightarrow> Inl err
           | Inr next_tensordicts \<Rightarrow>
               (case sequence
                  (map (\<lambda>(td, ntd).
                      step_mdp td ntd keep_other exclude_reward exclude_done exclude_action
                        reward_keys done_keys action_keys)
                    (zip tensordicts next_tensordicts))
                of
                  Inl err \<Rightarrow> Inl err
                | Inr outs \<Rightarrow>
                    (case next_tensordict of
                       Some nt \<Rightarrow> td_update nt (LazyStack outs)
                     | None \<Rightarrow> Inr (LazyStack outs))))
      | _ \<Rightarrow>
          (let excluded = exclusion exclude_reward exclude_done exclude_action
                            reward_keys done_keys action_keys
           in case get tensordict ''next'' of
                Inl err \<Rightarrow> Inl err
              | Inr next_td \<Rightarrow>
                  (case empty next_td of
                     Inl err \<Rightarrow> Inl err
                   | Inr out0 \<Rightarrow>
                       (case generic_copy tensordict next_td out0 keep_other exclude_action
                               action_keys excluded of
                          Inl err \<Rightarrow> Inl err
                        | Inr out \<Rightarrow>
                            (case next_tensordict of
                               Some nt \<Rightarrow> td_update nt out
                             | None \<Rightarrow> Inr out)))))"
  by pat_completeness auto

termination step_mdp
  apply (relation "measure (\<lambda>(tensordict, rest). size tensordict)")
  subgoal by simp
  subgoal for tensordict next_tensordict keep_other exclude_reward exclude_done exclude_action
      reward_keys done_keys action_keys tensordicts nts z td ntd
    using size_member [of td tensordicts] set_zip_leftD [of td ntd tensordicts nts]
    by auto
  done


section \<open>The stateful transition engine\<close>

text \<open>
  What \<^verbatim>\<open>_StepMDP.__init__\<close> reads from the environment: the action, done and reward
  keys, and the leaf keys of the observation and state specs.
\<close>

record env =
  env_action_keys :: "key list"
  env_done_keys :: "key list"
  env_reward_keys :: "key list"
  env_observation_keys :: "key list"
  env_state_keys :: "key list"

text \<open>A key list as a tree: a dict from a segment to \<^verbatim>\<open>None\<close> (copy this entry) or to
  the tree of the segments below it.\<close>

datatype key_tree = KTree "(string \<times> key_tree option) list"

text \<open>
  \<^verbatim>\<open>_repr_key_list_as_tree\<close> builds a batch with one entry per key and maps its dict to
  \<^verbatim>\<open>None\<close> leaves. The batch is filled key by key; a key that runs through an entry
  already holding a tensor cannot be placed, and the constructor raises.
\<close>

fun tree_insert :: "key \<Rightarrow> key_tree \<Rightarrow> exn + key_tree" where
  "tree_insert [] t = Inl (KeyError ''empty key'')"
| "tree_insert [k] (KTree es) = Inr (KTree (upd k None es))"
| "tree_insert (k # k' # ks) (KTree es) =
     (case lookup es k of
        None \<Rightarrow>
          (case tree_insert (k' # ks) (KTree []) of
             Inl e \<Rightarrow> Inl e
           | Inr t \<Rightarrow> Inr (KTree (upd k (Some t) es)))
      | Some None \<Rightarrow> Inl (KeyError ''the entry is a tensor and cannot hold a nested key'')
      | Some (Some sub) \<Rightarrow>
          (case tree_insert (k' # ks) sub of
             Inl e \<Rightarrow> Inl e
           | Inr t \<Rightarrow> Inr (KTree (upd k (Some t) es))))"

fun u_repr_key_list_as_tree_from :: "key_tree \<Rightarrow> key list \<Rightarrow> exn + key_tree" where
  "u_repr_key_list_as_tree_from t [] = Inr t"
| "u_repr_key_list_as_tree_from t (key # key_list) =
     (case tree_insert key t of
        Inl e \<Rightarrow> Inl e
      | Inr t' \<Rightarrow> u_repr_key_list_as_tree_from t' key_list)"

definition u_repr_key_list_as_tree :: "key list \<Rightarrow> exn + key_tree" where
  "u_repr_key_list_as_tree key_list = u_repr_key_list_as_tree_from (KTree []) key_list"

text \<open>
  The instance. \<open>self_validated\<close> is \<^verbatim>\<open>None\<close> until the first check; \<open>self_excluded\<close> is
  only asked for membership. \<open>warnings_issued\<close> counts the calls of \<^verbatim>\<open>warnings.warn\<close>
  made by the instance.
\<close>

record stepmdp =
  self_action_keys :: "key list"
  self_done_keys :: "key list"
  self_reward_keys :: "key list"
  self_observation_keys :: "key list"
  self_state_keys :: "key list"
  self_excluded :: "key set"
  self_keep_other :: bool
  self_exclude_action :: bool
  self_keys_from_root :: key_tree
  self_keys_from_next :: key_tree
  self_validated :: "bool option"
  warnings_issued :: nat

text \<open>\<^verbatim>\<open>_StepMDP.__init__(env, keep_other, exclude_reward, exclude_done, exclude_action)\<close>.\<close>

definition StepMDP_init :: "env \<Rightarrow> bool \<Rightarrow> bool \<Rightarrow> bool \<Rightarrow> bool \<Rightarrow> exn + stepmdp" where
  "StepMDP_init e keep_other exclude_reward exclude_done exclude_action =
     (let keys_from_next =
            env_observation_keys e
            @ (if \<not> exclude_reward then env_reward_keys e else [])
            @ (if \<not> exclude_done then env_done_keys e else []);
          keys_from_root =
            (if \<not> exclude_action then env_action_keys e else [])
            @ (if keep_other then env_state_keys e else [])
      in case u_repr_key_list_as_tree keys_from_root of
           Inl err \<Rightarrow> Inl err
         | Inr root_tree \<Rightarrow>
             (case u_repr_key_list_as_tree keys_from_next of
                Inl err \<Rightarrow> Inl err
              | Inr next_tree \<Rightarrow>
                  Inr \<lparr> self_action_keys = env_action_keys e,
                        self_done_keys = env_done_keys e,
                        self_reward_keys = env_reward_keys e,
                        self_observation_keys = env_observation_keys e,
                        self_state_keys = env_state_keys e,
                        self_excluded = exclusion exclude_reward exclude_done exclude_action
                                          (env_reward_keys e) (env_done_keys e) (env_action_keys e),
                        self_keep_other = keep_other,
                        self_exclude_action = exclude_action,
                        self_keys_from_root = root_tree,
                        self_keys_from_next = next_tree,
                        self_validated = None,
                        warnings_issued = 0 \<rparr>))"

text \<open>\<^verbatim>\<open>tensordict.keys(True, True)\<close>: the key paths of the leaves, at every depth; a stack
  shows the paths all its members share.\<close>

fun leaf_keys :: "node \<Rightarrow> key list" where
  "leaf_keys (TD bs es) =
     concat (map (\<lambda>(k, v). if is_tensor_collection v then map ((#) k) (leaf_keys v) else [[k]]) es)"
| "leaf_keys (LazyStack []) = []"
| "leaf_keys (LazyStack (x # xs)) =
     filter (\<lambda>p. \<forall>y \<in> set xs. p \<in> set (leaf_keys y)) (leaf_keys x)"
| "leaf_keys (Leaf t) = []"
| "leaf_keys (Failing e) = []"
| "leaf_keys (Obj v) = []"

definition expected_keys :: "stepmdp \<Rightarrow> key list" where
  "expected_keys self =
     self_state_keys self
     @ self_action_keys self
     @ self_done_keys self
     @ self_observation_keys self
     @ map ((#) ''next'') (self_observation_keys self)
     @ map ((#) ''next'') (self_done_keys self)
     @ map ((#) ''next'') (self_reward_keys self)"

text \<open>\<^verbatim>\<open>_StepMDP.validate(tensordict)\<close>: the answer and the instance after the call.\<close>

definition validate :: "stepmdp \<Rightarrow> node \<Rightarrow> bool \<times> stepmdp" where
  "validate self tensordict =
     (if self_validated self = Some True then (True, self)
      else if self_validated self = None then
        (let expected = expected_keys self;
             actual = set (leaf_keys tensordict);
             validated = (set expected = actual)
         in (validated,
             self \<lparr> self_validated := Some validated,
                    warnings_issued := (if \<not> validated then Suc (warnings_issued self)
                                        else warnings_issued self) \<rparr>))
      else (False, self))"


text \<open>
  \<^verbatim>\<open>_grab_and_place(nested_key_dict, data_in, data_out)\<close>: \<open>u_grab_and_place_items\<close> is the
  loop over the dict's items. Nothing catches a raise here, so the raise ends the call.
  The default handed to \<^verbatim>\<open>_get_str\<close> is the \<^verbatim>\<open>NO_DEFAULT\<close> of
  \<^verbatim>\<open>torchrl.data.tensor_specs\<close>, which is not the container's own marker: for a key
  the input lacks the container hands that object back, and it is carried on as the
  value.
\<close>

function (sequential)
  u_grab_and_place :: "key_tree \<Rightarrow> node \<Rightarrow> node \<Rightarrow> exn + node"
  and u_grab_and_place_items :: "(string \<times> key_tree option) list \<Rightarrow> node \<Rightarrow> node \<Rightarrow> exn + node"
where
  "u_grab_and_place (KTree items) data_in data_out = u_grab_and_place_items items data_in data_out"
| "u_grab_and_place_items [] data_in data_out = Inr data_out"
| "u_grab_and_place_items ((key, subdict) # items) data_in data_out =
     (case get_str data_in key of
        Inl err \<Rightarrow> Inl err
      | Inr got \<Rightarrow>
          let val = (case got of None \<Rightarrow> Obj NoDefault | Some v \<Rightarrow> v) in
          (case
             (case subdict of
                None \<Rightarrow> Inr val
              | Some sub \<Rightarrow>
                  (case get_str data_out key of
                     Inl err \<Rightarrow> Inl err
                   | Inr held \<Rightarrow>
                       (case (case held of Some v \<Rightarrow> Inr v | None \<Rightarrow> empty val) of
                          Inl err \<Rightarrow> Inl err
                        | Inr val_out \<Rightarrow>
                            (case val of
                               LazyStack vals \<Rightarrow>
                                 (case unbind val_out of
                                    Inl err \<Rightarrow> Inl err
                                  | Inr val_outs \<Rightarrow>
                                      (case sequence
                                         (map (\<lambda>(v, v_out). u_grab_and_place sub v v_out)
                                            (zip vals val_outs))
                                       of
                                         Inl err \<Rightarrow> Inl err
                                       | Inr rs \<Rightarrow> Inr (LazyStack rs)))
                             | _ \<Rightarrow> u_grab_and_place sub val val_out))))
           of
             Inl err \<Rightarrow> Inl err
           | Inr val' \<Rightarrow>
               (case set_str data_out key val' of
                  Inl err \<Rightarrow> Inl err
                | Inr data_out' \<Rightarrow> u_grab_and_place_items items data_in data_out')))"
  by pat_completeness auto

termination u_grab_and_place
  by (relation "measure (\<lambda>a. case a of
           Inl (t, data_in, data_out) \<Rightarrow> size t
         | Inr (items, data_in, data_out) \<Rightarrow> size_list (size_prod (\<lambda>_. 0) (size_option size)) items)")
    auto

text \<open>
  \<^verbatim>\<open>_StepMDP.__call__(tensordict)\<close>: the result and the instance after the call (the
  validation flag is kept from one call to the next, and from one member of a stack to
  the next). \<open>StepMDP_call_each\<close> is the list comprehension over the members of a stack.
\<close>

function (sequential)
  StepMDP_call :: "stepmdp \<Rightarrow> node \<Rightarrow> (exn + node) \<times> stepmdp"
  and StepMDP_call_each :: "stepmdp \<Rightarrow> node list \<Rightarrow> (exn + node list) \<times> stepmdp"
where
  "StepMDP_call self (LazyStack tensordicts) =
     (case StepMDP_call_each self tensordicts of
        (Inl err, self') \<Rightarrow> (Inl err, self')
      | (Inr outs, self') \<Rightarrow> (Inr (LazyStack outs), self'))"
| "StepMDP_call self tensordict =
     (case get_str tensordict ''next'' of
        Inl err \<Rightarrow> (Inl err, self)
      | Inr None \<Rightarrow> (Inl (AttributeError ''NoneType object has no attribute empty''), self)
      | Inr (Some next_td) \<Rightarrow>
          (case empty next_td of
             Inl err \<Rightarrow> (Inl err, self)
           | Inr out \<Rightarrow>
               (case validate self tensordict of
                  (True, self') \<Rightarrow>
                    (case u_grab_and_place (self_keys_from_root self') tensordict out of
                       Inl err \<Rightarrow> (Inl err, self')
                     | Inr out1 \<Rightarrow> (u_grab_and_place (self_keys_from_next self') next_td out1, self'))
                | (False, self') \<Rightarrow>
                    (generic_copy tensordict next_td out (self_keep_other self')
                       (self_exclude_action self') (self_action_keys self') (self_excluded self'),
                     self'))))"
| "StepMDP_call_each self [] = (Inr [], self)"
| "StepMDP_call_each self (td # tds) =
     (case StepMDP_call self td of
        (Inl err, self') \<Rightarrow> (Inl err, self')
      | (Inr out, self') \<Rightarrow>
          (case StepMDP_call_each self' tds of
             (Inl err, self'') \<Rightarrow> (Inl err, self'')
           | (Inr outs, self'') \<Rightarrow> (Inr (out # outs), self'')))"
  by pat_completeness auto

termination StepMDP_call
  by (relation "measure (\<lambda>a. case a of
           Inl (self, tensordict) \<Rightarrow> size tensordict
         | Inr (self, tds) \<Rightarrow> size_list size tds)")
    auto

section \<open>Comparing batches\<close>

text \<open>
  The content of a batch: its leaves, each with the path that leads to it (a key of a
  plain batch, the position of a member of a stack). Two batches have the same key set
  and the same leaf values when they have the same leaves.
\<close>

datatype seg = Key string | Member nat

lemma size_zip_member [termination_simp]:
  "(i, x) \<in> set (zip is xs) \<Longrightarrow> size (x::node) < Suc (size_list size xs)"
  using size_member [of x xs] by (auto dest: set_zip_rightD)

fun leaf_items :: "node \<Rightarrow> (seg list \<times> tensor) list" where
  "leaf_items (Leaf t) = [([], t)]"
| "leaf_items (TD bs es) =
     concat (map (\<lambda>(k, v). map (\<lambda>(p, t). (Key k # p, t)) (leaf_items v)) es)"
| "leaf_items (LazyStack xs) =
     concat (map (\<lambda>(i, x). map (\<lambda>(p, t). (Member i # p, t)) (leaf_items x))
               (zip [0..<length xs] xs))"
| "leaf_items (Failing e) = []"
| "leaf_items (Obj v) = []"

definition same_leaves :: "node \<Rightarrow> node \<Rightarrow> bool" where
  "same_leaves a b = (set (leaf_items a) = set (leaf_items b))"

text \<open>The batch holds a next sub-batch; for a stack, every member does.\<close>

fun has_next :: "node \<Rightarrow> bool" where
  "has_next (TD bs es) = (lookup es ''next'' \<noteq> None)"
| "has_next (LazyStack xs) = (\<forall>x \<in> set xs. has_next x)"
| "has_next (Leaf t) = False"
| "has_next (Failing e) = False"
| "has_next (Obj v) = False"

section \<open>Example data\<close>

text \<open>An environment with one key of each kind and no state, and the instance built
  for it with the default configuration.\<close>

definition example_env :: env where
  "example_env =
     \<lparr> env_action_keys = [[''action'']], env_done_keys = [[''done'']],
       env_reward_keys = [[''reward'']], env_observation_keys = [[''obs'']],
       env_state_keys = [] \<rparr>"

definition example_engine :: stepmdp where
  "example_engine =
     \<lparr> self_action_keys = [[''action'']], self_done_keys = [[''done'']],
       self_reward_keys = [[''reward'']], self_observation_keys = [[''obs'']],
       self_state_keys = [],
       self_excluded = {[''reward''], [''action'']},
       self_keep_other = True, self_exclude_action = True,
       self_keys_from_root = KTree [],
       self_keys_from_next = KTree [(''obs'', None), (''done'', None)],
       self_validated = None, warnings_issued = 0 \<rparr>"

text \<open>A batch with exactly the keys the instance expects, and the same batch with one
  more root entry.\<close>

definition matching_batch :: node where
  "matching_batch =
     TD [] [(''obs'', Leaf (FloatT [] [0])),
            (''action'', Leaf (FloatT [] [0])),
            (''done'', Leaf (BoolT [] [False])),
            (''next'', TD [] [(''obs'', Leaf (FloatT [] [1])),
                              (''done'', Leaf (BoolT [] [False])),
                              (''reward'', Leaf (FloatT [] [0]))])]"

definition extra_batch :: node where
  "extra_batch =
     TD [] [(''obs'', Leaf (FloatT [] [0])),
            (''action'', Leaf (FloatT [] [0])),
            (''done'', Leaf (BoolT [] [False])),
            (''next'', TD [] [(''obs'', Leaf (FloatT [] [1])),
                              (''done'', Leaf (BoolT [] [False])),
                              (''reward'', Leaf (FloatT [] [0]))]),
            (''extra'', Leaf (FloatT [] [5]))]"

text \<open>A stack of two batches whose \<^verbatim>\<open>obs\<close> entries differ in shape.\<close>

definition het_member :: node where
  "het_member =
     LazyStack [TD [] [(''obs'', Leaf (FloatT [2] [0, 1]))],
                TD [] [(''obs'', Leaf (FloatT [3] [0, 1, 2]))]]"

section \<open>Boolean tensors\<close>

text \<open>
  The operations the episode-boundary code applies to done and reset tensors. Broadcasting
  aligns shapes on the right; two tensors of one shape combine element by element.
\<close>

fun bshape_rev :: "nat list \<Rightarrow> nat list \<Rightarrow> nat list option" where
  "bshape_rev [] ys = Some ys"
| "bshape_rev xs [] = Some xs"
| "bshape_rev (x # xs) (y # ys) =
     (case bshape_rev xs ys of
        None \<Rightarrow> None
      | Some zs \<Rightarrow>
          if x = y \<or> y = 1 then Some (x # zs)
          else if x = 1 then Some (y # zs)
          else None)"

definition broadcast_shapes :: "nat list \<Rightarrow> nat list \<Rightarrow> nat list option" where
  "broadcast_shapes s t = map_option rev (bshape_rev (rev s) (rev t))"

fun expand :: "nat list \<Rightarrow> nat list \<Rightarrow> 'a list \<Rightarrow> 'a list" where
  "expand (s # ss) (t # ts) d =
     concat (map (\<lambda>i. expand ss ts
                         (take (prod_list ss) (drop ((if s = 1 then 0 else i) * prod_list ss) d)))
               [0..<t])"
| "expand ss ts d = d"

definition broadcast_to :: "nat list \<Rightarrow> nat list \<Rightarrow> 'a list \<Rightarrow> 'a list" where
  "broadcast_to s t d = expand (replicate (length t - length s) 1 @ s) t d"

text \<open>\<^verbatim>\<open>a | b\<close> on tensors: defined for booleans only.\<close>

fun t_or :: "tensor \<Rightarrow> tensor \<Rightarrow> exn + tensor" where
  "t_or (BoolT s a) (BoolT t b) =
     (if s = t then Inr (BoolT s (map2 (\<or>) a b))
      else
        (case broadcast_shapes s t of
           None \<Rightarrow> Inl (RuntimeError ''The size of tensor a must match the size of tensor b'')
         | Some u \<Rightarrow> Inr (BoolT u (map2 (\<or>) (broadcast_to s u a) (broadcast_to t u b)))))"
| "t_or x y = Inl (RuntimeError ''bitwise_or not implemented for Float'')"

text \<open>\<^verbatim>\<open>False | t\<close>, the first step of an aggregation that starts from Python's
  \<^verbatim>\<open>False\<close>.\<close>

fun false_or :: "tensor \<Rightarrow> exn + tensor" where
  "false_or (BoolT s d) = Inr (BoolT s d)"
| "false_or (FloatT s d) = Inl (RuntimeError ''bitwise_or not implemented for Float'')"

text \<open>\<^verbatim>\<open>t.any()\<close> and \<^verbatim>\<open>t.all()\<close>, as truth values.\<close>

fun t_any :: "tensor \<Rightarrow> bool" where
  "t_any (BoolT s d) = (\<exists>b \<in> set d. b)"
| "t_any (FloatT s d) = (\<exists>x \<in> set d. x \<noteq> 0)"

fun t_all :: "tensor \<Rightarrow> bool" where
  "t_all (BoolT s d) = (\<forall>b \<in> set d. b)"
| "t_all (FloatT s d) = (\<forall>x \<in> set d. x \<noteq> 0)"

text \<open>\<^verbatim>\<open>t.squeeze(-1)\<close>: a last dimension of size one is dropped.\<close>

fun squeeze_last :: "tensor \<Rightarrow> tensor" where
  "squeeze_last (BoolT s d) = BoolT (if s \<noteq> [] \<and> last s = 1 then butlast s else s) d"
| "squeeze_last (FloatT s d) = FloatT (if s \<noteq> [] \<and> last s = 1 then butlast s else s) d"

definition zeros_bool :: "nat list \<Rightarrow> tensor" where
  "zeros_bool s = BoolT s (replicate (prod_list s) False)"

definition ones_bool :: "nat list \<Rightarrow> tensor" where
  "ones_bool s = BoolT s (replicate (prod_list s) True)"

text \<open>\<^verbatim>\<open>t.flatten(n, t.ndim - 1).any(-1)\<close>, for \<^verbatim>\<open>t.ndim > n\<close>: the dimensions from \<open>n\<close> on
  are merged and reduced by a logical or.\<close>

fun any_from :: "nat \<Rightarrow> tensor \<Rightarrow> tensor" where
  "any_from n (BoolT s d) =
     BoolT (take n s)
       (map (\<lambda>c. \<exists>b \<in> set c. b) (chunks (prod_list (take n s)) (prod_list (drop n s)) d))"
| "any_from n (FloatT s d) =
     BoolT (take n s)
       (map (\<lambda>c. \<exists>x \<in> set c. x \<noteq> 0) (chunks (prod_list (take n s)) (prod_list (drop n s)) d))"

text \<open>\<^verbatim>\<open>t.reshape(s)\<close>.\<close>

fun reshape :: "tensor \<Rightarrow> nat list \<Rightarrow> exn + tensor" where
  "reshape (BoolT s d) s' =
     (if prod_list s' = prod_list s then Inr (BoolT s' d)
      else Inl (RuntimeError ''shape is invalid for input size''))"
| "reshape (FloatT s d) s' =
     (if prod_list s' = prod_list s then Inr (FloatT s' d)
      else Inl (RuntimeError ''shape is invalid for input size''))"

text \<open>\<^verbatim>\<open>~t\<close>, for booleans.\<close>

fun t_not :: "tensor \<Rightarrow> exn + tensor" where
  "t_not (BoolT s d) = Inr (BoolT s (map Not d))"
| "t_not (FloatT s d) = Inl (TypeError ''bitwise_not not implemented for Float'')"

section \<open>The episode-boundary aggregator\<close>

text \<open>A done spec: a leaf spec, or a composite spec with its named sub-specs.\<close>

datatype done_spec = LeafSpec | CompositeSpec "(string \<times> done_spec) list"

text \<open>\<^verbatim>\<open>td.batch_size\<close> (\<^verbatim>\<open>td.shape\<close>); a stack along dimension 0 puts the number of its
  members in front.\<close>

fun batch_size :: "node \<Rightarrow> nat list" where
  "batch_size (TD bs es) = bs"
| "batch_size (LazyStack []) = [0]"
| "batch_size (LazyStack (x # xs)) = Suc (length xs) # batch_size x"
| "batch_size (Leaf t) = shape t"
| "batch_size (Failing e) = []"
| "batch_size (Obj v) = []"

text \<open>\<^verbatim>\<open>td.set(key, value)\<close> for a one-segment key: unlike \<^verbatim>\<open>_set_str\<close> with
  \<^verbatim>\<open>validated=True\<close> it checks that a tensor starts with the batch shape.\<close>

definition td_set :: "node \<Rightarrow> string \<Rightarrow> node \<Rightarrow> exn + node" where
  "td_set dest k v =
     (case v of
        Leaf t \<Rightarrow>
          if take (length (batch_size dest)) (shape t) = batch_size dest
          then set_str dest k v
          else Inl (RuntimeError ''batch dimension mismatch'')
      | _ \<Rightarrow> set_str dest k v)"

text \<open>\<^verbatim>\<open>td.items()\<close>: the first-level entries, each looked up.\<close>

definition td_items :: "node \<Rightarrow> exn + (string \<times> node) list" where
  "td_items data =
     (case keys data of
        Inl e \<Rightarrow> Inl e
      | Inr ks \<Rightarrow>
          sequence (map (\<lambda>k. case get data k of Inl e \<Rightarrow> Inl e | Inr v \<Rightarrow> Inr (k, v)) ks))"

text \<open>A loop whose body may raise: the first raise ends it.\<close>

fun fold_err :: "('a \<Rightarrow> 's \<Rightarrow> exn + 's) \<Rightarrow> 'a list \<Rightarrow> 's \<Rightarrow> exn + 's" where
  "fold_err f [] s = Inr s"
| "fold_err f (x # xs) s = (case f x s of Inl e \<Rightarrow> Inl e | Inr s' \<Rightarrow> fold_err f xs s')"

lemma fold_err_cong [fundef_cong]:
  "xs = ys \<Longrightarrow> s = t \<Longrightarrow> (\<And>x s. x \<in> set ys \<Longrightarrow> f x s = g x s) \<Longrightarrow> fold_err f xs s = fold_err g ys t"
proof (induction ys arbitrary: xs s t)
  case Nil
  then show ?case by simp
next
  case (Cons y ys)
  then show ?case by (cases "g y t") (auto split: sum.splits)
qed

text \<open>\<^verbatim>\<open>aggregate = aggregate | done\<close>, after \<^verbatim>\<open>if aggregate is None: aggregate = False\<close>. An
  operand that is not a tensor has no such operation.\<close>

definition or_into :: "tensor option \<Rightarrow> node \<Rightarrow> exn + tensor" where
  "or_into aggregate item =
     (case item of
        Leaf done \<Rightarrow> (case aggregate of None \<Rightarrow> false_or done | Some a \<Rightarrow> t_or a done)
      | _ \<Rightarrow> Inl (TypeError ''unsupported operand type(s) for |''))"

definition DONE_NAMES :: "string set" where
  "DONE_NAMES = {''terminated'', ''truncated'', ''done''}"

text \<open>The first loop without a spec, over \<^verbatim>\<open>data.items()\<close>: the running aggregate, the
  number of leaves found, the sub-batches kept for the second loop.\<close>

definition scan_item ::
  "string \<times> node \<Rightarrow> tensor option \<times> nat \<times> (string \<times> node) list
   \<Rightarrow> exn + tensor option \<times> nat \<times> (string \<times> node) list" where
  "scan_item entry st =
     (case (entry, st) of
        ((eot_key, item), (aggregate, found_leaf, tds)) \<Rightarrow>
          if eot_key \<in> DONE_NAMES then
            (case or_into aggregate item of
               Inl e \<Rightarrow> Inl e
             | Inr a \<Rightarrow> Inr (Some a, found_leaf + 1, tds))
          else if is_tensor_collection item then Inr (aggregate, found_leaf, tds @ [(eot_key, item)])
          else Inr (aggregate, found_leaf, tds))"

text \<open>The first loop with a spec, over \<^verbatim>\<open>full_done_spec.items()\<close>; a leaf the data does
  not hold counts as all false, of shape \<^verbatim>\<open>(*data.shape, 1)\<close>.\<close>

definition scan_spec_item ::
  "node \<Rightarrow> string \<times> done_spec \<Rightarrow> tensor option \<times> nat \<times> (string \<times> done_spec) list
   \<Rightarrow> exn + tensor option \<times> nat \<times> (string \<times> done_spec) list" where
  "scan_spec_item data entry st =
     (case (entry, st) of
        ((eot_key, item), (aggregate, found_leaf, composite_spec)) \<Rightarrow>
          (case item of
             CompositeSpec sub \<Rightarrow> Inr (aggregate, found_leaf, composite_spec @ [(eot_key, item)])
           | LeafSpec \<Rightarrow>
               (case get_str data eot_key of
                  Inl e \<Rightarrow> Inl e
                | Inr held \<Rightarrow>
                    (case or_into aggregate
                            (case held of
                               None \<Rightarrow> Leaf (zeros_bool (batch_size data @ [1]))
                             | Some stop \<Rightarrow> stop) of
                       Inl e \<Rightarrow> Inl e
                     | Inr a \<Rightarrow> Inr (Some a, found_leaf + 1, composite_spec)))))"

text \<open>The end of the inner function: the aggregate of the node is written under the
  destination key, the key path is recorded, and the answer is or-ed with
  \<^verbatim>\<open>aggregate.any()\<close>.\<close>

definition write_aggregate ::
  "tensor option \<Rightarrow> string option \<Rightarrow> key \<Rightarrow> bool \<Rightarrow> node \<Rightarrow> key list
   \<Rightarrow> exn + bool \<times> node \<times> key list" where
  "write_aggregate aggregate key curr_done_key any_eot data list_of_keys =
     (case aggregate of
        None \<Rightarrow> Inr (any_eot, data, list_of_keys)
      | Some a \<Rightarrow>
          (case key of
             None \<Rightarrow> Inr (any_eot \<or> t_any a, data, list_of_keys)
           | Some k \<Rightarrow>
               (let a' = (if ndim a > length (batch_size data) then squeeze_last a else a)
                in case td_set data k (Leaf a') of
                     Inl e \<Rightarrow> Inl e
                   | Inr data' \<Rightarrow>
                       Inr (any_eot \<or> t_any a', data', list_of_keys @ [curr_done_key @ [k]]))))"

lemma sequence_mem:
  "sequence rs = Inr xs \<Longrightarrow> x \<in> set xs \<Longrightarrow> Inr x \<in> set rs"
proof (induction rs arbitrary: xs)
  case Nil
  then show ?case by simp
next
  case (Cons r rs)
  then show ?case by (cases r) (auto split: sum.splits)
qed

lemma td_items_size:
  "td_items data = Inr its \<Longrightarrow> (k, v) \<in> set its \<Longrightarrow> size v < size data"
proof -
  assume a: "td_items data = Inr its" and m: "(k, v) \<in> set its"
  from a obtain ks where
    s: "sequence (map (\<lambda>k. case get data k of Inl e \<Rightarrow> Inl e | Inr v \<Rightarrow> Inr (k, v)) ks) = Inr its"
    by (auto simp: td_items_def split: sum.splits)
  from sequence_mem [OF s m] obtain k' where
    "(case get data k' of Inl e \<Rightarrow> Inl e | Inr v \<Rightarrow> Inr (k', v)) = Inr (k, v)"
    by auto
  then have "get data k = Inr v" by (auto split: sum.splits)
  then show ?thesis by (rule get_size)
qed

lemma scan_tds_subset:
  "fold_err scan_item its (a0, n0, tds0) = Inr (a, n, tds) \<Longrightarrow> set tds \<subseteq> set tds0 \<union> set its"
proof (induction its arbitrary: a0 n0 tds0)
  case Nil
  then show ?case by simp
next
  case (Cons it its)
  from Cons.prems obtain a1 n1 tds1 where
    st: "scan_item it (a0, n0, tds0) = Inr (a1, n1, tds1)"
    and rest: "fold_err scan_item its (a1, n1, tds1) = Inr (a, n, tds)"
    by (auto split: sum.splits)
  from st have "set tds1 \<subseteq> set tds0 \<union> {it}"
    by (cases it) (auto simp: scan_item_def split: if_splits sum.splits)
  with Cons.IH [OF rest] show ?case by auto
qed

lemma scan_spec_subset:
  "fold_err (scan_spec_item data) its (a0, n0, cs0) = Inr (a, n, cs) \<Longrightarrow> set cs \<subseteq> set cs0 \<union> set its"
proof (induction its arbitrary: a0 n0 cs0)
  case Nil
  then show ?case by simp
next
  case (Cons it its)
  from Cons.prems obtain a1 n1 cs1 where
    st: "scan_spec_item data it (a0, n0, cs0) = Inr (a1, n1, cs1)"
    and rest: "fold_err (scan_spec_item data) its (a1, n1, cs1) = Inr (a, n, cs)"
    by (auto split: sum.splits)
  from st have "set cs1 \<subseteq> set cs0 \<union> {it}"
    by (cases it) (auto simp: scan_spec_item_def split: if_splits sum.splits done_spec.splits)
  with Cons.IH [OF rest] show ?case by auto
qed

lemma size_spec_entry:
  "(k, s) \<in> set items \<Longrightarrow> size (s::done_spec) < Suc (size_list (size_prod (\<lambda>_. 0) size) items)"
  by (induction items) auto

text \<open>
  \<^verbatim>\<open>inner_terminated_or_truncated(data, full_done_spec, key, curr_done_key)\<close> of
  \<^verbatim>\<open>_terminated_or_truncated\<close>. The batch is mutated in place and \<^verbatim>\<open>list_of_keys\<close> belongs
  to the enclosing call: both are passed in and returned with the answer. A sub-batch the
  walk has written is the batch's own entry.
\<close>

function inner_terminated_or_truncated ::
  "node \<Rightarrow> done_spec option \<Rightarrow> string option \<Rightarrow> key \<Rightarrow> key list \<Rightarrow> exn + bool \<times> node \<times> key list" where
  "inner_terminated_or_truncated data full_done_spec key curr_done_key list_of_keys =
     (case full_done_spec of
        None \<Rightarrow>
          (case td_items data of
             Inl e \<Rightarrow> Inl e
           | Inr its \<Rightarrow>
               (case fold_err scan_item its (None, 0, []) of
                  Inl e \<Rightarrow> Inl e
                | Inr (aggregate, found_leaf, tds) \<Rightarrow>
                    (case fold_err
                            (\<lambda>(eot_key, item) (any_eot, data1, ks).
                                case inner_terminated_or_truncated item None key
                                       (curr_done_key @ [eot_key]) ks of
                                  Inl e \<Rightarrow> Inl e
                                | Inr (any_eot_td, item', ks') \<Rightarrow>
                                    Inr (if found_leaf = 0 then any_eot \<or> any_eot_td else any_eot,
                                         write_back (Some item) data1 eot_key item', ks'))
                            tds (False, data, list_of_keys) of
                       Inl e \<Rightarrow> Inl e
                     | Inr (any_eot, data1, ks) \<Rightarrow>
                         write_aggregate aggregate key curr_done_key any_eot data1 ks)))
      | Some LeafSpec \<Rightarrow> Inl (AttributeError ''spec has no attribute items'')
      | Some (CompositeSpec spec_items) \<Rightarrow>
          (case fold_err (scan_spec_item data) spec_items (None, 0, []) of
             Inl e \<Rightarrow> Inl e
           | Inr (aggregate, found_leaf, composite_spec) \<Rightarrow>
               (case fold_err
                       (\<lambda>(eot_key, item) (any_eot, data1, ks).
                           case get data1 eot_key of
                             Inl e \<Rightarrow> Inl e
                           | Inr sub \<Rightarrow>
                               (case inner_terminated_or_truncated sub (Some item) key
                                       (curr_done_key @ [eot_key]) ks of
                                  Inl e \<Rightarrow> Inl e
                                | Inr (any_eot_td, sub', ks') \<Rightarrow>
                                    Inr (if found_leaf = 0 then any_eot_td \<or> any_eot else any_eot,
                                         write_back (Some sub) data1 eot_key sub', ks')))
                       composite_spec (False, data, list_of_keys) of
                  Inl e \<Rightarrow> Inl e
                | Inr (any_eot, data1, ks) \<Rightarrow>
                    write_aggregate aggregate key curr_done_key any_eot data1 ks)))"
  by pat_completeness auto

termination inner_terminated_or_truncated
  apply (relation "inv_image (less_than <*lex*> less_than)
           (\<lambda>(data, full_done_spec, key, curr_done_key, list_of_keys).
               (case full_done_spec of None \<Rightarrow> 0 | Some s \<Rightarrow> Suc (size s), size data))")
  subgoal by auto
  subgoal for data full_done_spec key curr_done_key list_of_keys its st aggregate rest found_leaf tds
      entry st2 eot_key item
    using scan_tds_subset [of its None 0 "[]" aggregate found_leaf tds]
      td_items_size [of data its eot_key item]
    by auto
  subgoal for data full_done_spec key curr_done_key list_of_keys spec spec_items st aggregate rest
      found_leaf composite_spec entry st2 eot_key item
    using scan_spec_subset [of data spec_items None 0 "[]" aggregate found_leaf composite_spec]
      size_spec_entry [of eot_key item spec_items]
    by auto
  done

declare inner_terminated_or_truncated.simps [simp del]

text \<open>\<^verbatim>\<open>del td[key]\<close> for a key path; a path the batch does not hold is left alone.\<close>

fun del_path :: "node \<Rightarrow> key \<Rightarrow> node" where
  "del_path (TD bs es) [k] = TD bs (delete k es)"
| "del_path (TD bs es) (k # k' # ks) =
     (case lookup es k of
        None \<Rightarrow> TD bs es
      | Some v \<Rightarrow> TD bs (upd k (del_path v (k' # ks)) es))"
| "del_path (LazyStack xs) (k # ks) = LazyStack (map (\<lambda>x. del_path x (k # ks)) xs)"
| "del_path n p = n"

text \<open>\<^verbatim>\<open>td.exclude(*keys, inplace=True)\<close>.\<close>

definition exclude :: "node \<Rightarrow> key list \<Rightarrow> node" where
  "exclude data ks = foldl del_path data ks"

text \<open>\<^verbatim>\<open>_terminated_or_truncated(data, full_done_spec, key, write_full_false)\<close>: the answer
  and the batch after the call.\<close>

definition u_terminated_or_truncated ::
  "node \<Rightarrow> done_spec option \<Rightarrow> string option \<Rightarrow> bool \<Rightarrow> exn + bool \<times> node" where
  "u_terminated_or_truncated data full_done_spec key write_full_false =
     (case inner_terminated_or_truncated data full_done_spec key [] [] of
        Inl e \<Rightarrow> Inl e
      | Inr (any_eot, data', list_of_keys) \<Rightarrow>
          if \<not> any_eot \<and> \<not> write_full_false
          then Inr (any_eot, exclude data' list_of_keys)
          else Inr (any_eot, data'))"

subsection \<open>What the walk reads\<close>

text \<open>
  The values the walk aggregates at a node, and the sub-nodes it descends into. Without
  a spec these are the entries named \<^verbatim>\<open>done\<close>, \<^verbatim>\<open>terminated\<close> or \<^verbatim>\<open>truncated\<close>, and the
  other entries that are batches; with a spec, the leaf specs (an absent entry read as
  all false) and the composite specs.
\<close>

fun direct_leaves :: "done_spec option \<Rightarrow> node \<Rightarrow> node list" where
  "direct_leaves None (TD bs es) = map snd (filter (\<lambda>(k, v). k \<in> DONE_NAMES) es)"
| "direct_leaves (Some (CompositeSpec items)) (TD bs es) =
     map (\<lambda>(k, s). case lookup es k of
                      None \<Rightarrow> Leaf (zeros_bool (bs @ [1]))
                    | Some v \<Rightarrow> v)
       (filter (\<lambda>(k, s). s = LeafSpec) items)"
| "direct_leaves spec data = []"

fun spec_subs ::
  "(string \<times> node) list \<Rightarrow> (string \<times> done_spec) list \<Rightarrow> (string \<times> done_spec option \<times> node) list" where
  "spec_subs es [] = []"
| "spec_subs es ((k, s) # items) =
     (if s = LeafSpec then spec_subs es items
      else (case lookup es k of
              None \<Rightarrow> spec_subs es items
            | Some v \<Rightarrow> (k, Some s, v) # spec_subs es items))"

fun sub_nodes :: "done_spec option \<Rightarrow> node \<Rightarrow> (string \<times> done_spec option \<times> node) list" where
  "sub_nodes None (TD bs es) =
     map (\<lambda>(k, v). (k, None, v)) (filter (\<lambda>(k, v). k \<notin> DONE_NAMES \<and> is_tensor_collection v) es)"
| "sub_nodes (Some (CompositeSpec items)) (TD bs es) = spec_subs es items"
| "sub_nodes spec data = []"

text \<open>The values aggregated at the node a path of sub-node names leads to.\<close>

fun direct_at :: "done_spec option \<Rightarrow> node \<Rightarrow> key \<Rightarrow> node list" where
  "direct_at spec data [] = direct_leaves spec data"
| "direct_at spec data (k # q) =
     (case lookup (sub_nodes spec data) k of
        None \<Rightarrow> []
      | Some (spec', sub) \<Rightarrow> direct_at spec' sub q)"

fun node_any :: "node \<Rightarrow> bool" where
  "node_any (Leaf t) = t_any t"
| "node_any v = False"

text \<open>Some leaf is true: at any node of the walk.\<close>

definition some_leaf_true :: "done_spec option \<Rightarrow> node \<Rightarrow> bool" where
  "some_leaf_true spec data = (\<exists>q. \<exists>v \<in> set (direct_at spec data q). node_any v)"

text \<open>Some leaf is true at a node none of whose ancestors has leaves of its own.\<close>

definition some_governing_leaf_true :: "done_spec option \<Rightarrow> node \<Rightarrow> bool" where
  "some_governing_leaf_true spec data =
     (\<exists>q. (\<exists>v \<in> set (direct_at spec data q). node_any v)
          \<and> (\<forall>q' r. q = q' @ r \<and> r \<noteq> [] \<longrightarrow> direct_at spec data q' = []))"

text \<open>The batch holds an entry at the key path.\<close>

fun has_path :: "node \<Rightarrow> key \<Rightarrow> bool" where
  "has_path n [] = True"
| "has_path (TD bs es) (k # p) = (case lookup es k of None \<Rightarrow> False | Some v \<Rightarrow> has_path v p)"
| "has_path (LazyStack xs) (k # p) = (\<exists>x \<in> set xs. has_path x (k # p))"
| "has_path n (k # p) = False"

text \<open>
  A batch the walk can read: a plain batch with distinct keys, none of whose entries
  fails; the values aggregated at a node are boolean tensors of one shape that starts
  with the node's batch shape; with a spec, the names of a spec are distinct and every
  composite spec has its sub-batch; and the same holds in every sub-node.
\<close>

fun plain_entry :: "node \<Rightarrow> bool" where
  "plain_entry (Failing e) = False"
| "plain_entry (Obj x) = False"
| "plain_entry (LazyStack xs) = False"
| "plain_entry v = True"

definition good_leaf :: "nat list \<Rightarrow> nat list \<Rightarrow> node \<Rightarrow> bool" where
  "good_leaf bs s v =
     (case v of
        Leaf (BoolT s' d) \<Rightarrow> s' = s \<and> length d = prod_list s \<and> take (length bs) s = bs
      | _ \<Rightarrow> False)"

fun spec_fits :: "done_spec option \<Rightarrow> (string \<times> node) list \<Rightarrow> bool" where
  "spec_fits None es = True"
| "spec_fits (Some LeafSpec) es = False"
| "spec_fits (Some (CompositeSpec items)) es =
     (distinct (map fst items)
      \<and> (\<forall>(k, s) \<in> set items. s \<noteq> LeafSpec \<longrightarrow> (case lookup es k of Some (TD bs' es') \<Rightarrow> True | _ \<Rightarrow> False)))"

lemma spec_subs_mem:
  "(k, spec', sub) \<in> set (spec_subs es items) \<Longrightarrow>
   \<exists>s'. spec' = Some s' \<and> s' \<noteq> LeafSpec \<and> (k, s') \<in> set items \<and> lookup es k = Some sub"
  by (induction es items rule: spec_subs.induct) (auto split: if_splits option.splits)

lemma sub_nodes_smaller:
  "(k, spec', sub) \<in> set (sub_nodes spec data) \<Longrightarrow>
   (case spec of None \<Rightarrow> spec' = None \<and> size sub < size data
               | Some s \<Rightarrow> (\<exists>s'. spec' = Some s' \<and> size s' < size s))"
proof (induction spec data rule: sub_nodes.induct)
  case (1 bs es)
  then show ?case by (auto dest: size_entry)
next
  case (2 items bs es)
  then show ?case by (auto dest!: spec_subs_mem dest: size_spec_entry)
qed auto

function wf_walk :: "done_spec option \<Rightarrow> node \<Rightarrow> bool" where
  "wf_walk spec (TD bs es) =
     (distinct (map fst es)
      \<and> (\<forall>(k, v) \<in> set es. plain_entry v)
      \<and> spec_fits spec es
      \<and> (case direct_leaves spec (TD bs es) of
            [] \<Rightarrow> True
          | v # vs \<Rightarrow> \<forall>u \<in> set (v # vs). good_leaf bs (batch_size v) u)
      \<and> (\<forall>(k, spec', sub) \<in> set (sub_nodes spec (TD bs es)). wf_walk spec' sub))"
| "wf_walk spec (Leaf t) = False"
| "wf_walk spec (LazyStack xs) = False"
| "wf_walk spec (Failing e) = False"
| "wf_walk spec (Obj v) = False"
  by pat_completeness auto

termination wf_walk
  apply (relation "inv_image (less_than <*lex*> less_than)
           (\<lambda>(spec, data). (case spec of None \<Rightarrow> 0 | Some s \<Rightarrow> Suc (size s), size data))")
  subgoal by auto
  subgoal for spec bs es entry k rest spec' sub
    using sub_nodes_smaller [of k spec' sub spec "TD bs es"]
    by (auto split: option.splits)
  done

section \<open>Aggregating the reset signals\<close>

text \<open>
  \<^verbatim>\<open>td.get(key, None)\<close> for a key path: \<^verbatim>\<open>None\<close> when a segment is absent; going through
  an entry that is not a batch is an error of the container.
\<close>

fun get_path :: "node \<Rightarrow> key \<Rightarrow> exn + node option" where
  "get_path td [] = Inl (KeyError ''empty key'')"
| "get_path td [k] = get_str td k"
| "get_path td (k # k' # ks) =
     (case get_str td k of
        Inl e \<Rightarrow> Inl e
      | Inr None \<Rightarrow> Inr None
      | Inr (Some v) \<Rightarrow>
          if is_tensor_collection v then get_path v (k' # ks)
          else Inl (ValueError ''Expected a TensorDictBase instance but got a tensor''))"

text \<open>
  Modelled from the spec: \<^verbatim>\<open>_replace_last\<close> is imported from \<^verbatim>\<open>torchrl._utils\<close>, which is
  not among the sources. The spec derives the reset key paths from the done key paths
  ``by name substitution'': the last segment is replaced by the new ending.
\<close>

definition replace_last :: "key \<Rightarrow> string \<Rightarrow> key" where
  "replace_last k new_ending = butlast k @ [new_ending]"

definition PARTIAL_MISSING_ERR :: string where
  "PARTIAL_MISSING_ERR =
     ''Some reset keys were present but not all. Either all the `'_reset'` entries must be present, or none.''"

text \<open>What \<^verbatim>\<open>_aggregate_end_of_traj\<close> returns: Python's \<^verbatim>\<open>False\<close> (the loop ran over no
  key) or a tensor.\<close>

datatype reset_value = PyFalse | ResetT tensor

text \<open>\<^verbatim>\<open>reset = reset | local_reset\<close>, after the trailing dimensions beyond the batch's
  \<open>n\<close> have been reduced.\<close>

definition or_reset :: "nat \<Rightarrow> reset_value \<Rightarrow> node \<Rightarrow> exn + reset_value" where
  "or_reset n reset local_reset =
     (case local_reset of
        Leaf t0 \<Rightarrow>
          (let t = (if ndim t0 > n then any_from n t0 else t0)
           in case (case reset of PyFalse \<Rightarrow> false_or t | ResetT r \<Rightarrow> t_or r t) of
                Inl e \<Rightarrow> Inl e
              | Inr r' \<Rightarrow> Inr (ResetT r'))
      | _ \<Rightarrow> Inl (TypeError ''unsupported operand type(s) for |''))"

text \<open>The loop over \<^verbatim>\<open>reset_keys\<close>, with \<^verbatim>\<open>reset\<close> and \<^verbatim>\<open>has_missing\<close>.\<close>

fun reset_keys_loop ::
  "node \<Rightarrow> nat \<Rightarrow> key list \<Rightarrow> reset_value \<Rightarrow> bool option \<Rightarrow> exn + reset_value \<times> bool option" where
  "reset_keys_loop data n [] reset has_missing = Inr (reset, has_missing)"
| "reset_keys_loop data n (key # ks) reset has_missing =
     (case get_path data key of
        Inl e \<Rightarrow> Inl e
      | Inr None \<Rightarrow>
          if has_missing = Some False then Inl (ValueError PARTIAL_MISSING_ERR)
          else reset_keys_loop data n ks reset (Some True)
      | Inr (Some local_reset) \<Rightarrow>
          if has_missing = Some True then Inl (ValueError PARTIAL_MISSING_ERR)
          else
            (case or_reset n reset local_reset of
               Inl e \<Rightarrow> Inl e
             | Inr reset' \<Rightarrow> reset_keys_loop data n ks reset' (Some False)))"

text \<open>\<^verbatim>\<open>td.entry_class(key)\<close> is a batch class: asked without fetching the value.\<close>

fun entry_is_collection :: "node \<Rightarrow> string \<Rightarrow> bool" where
  "entry_is_collection (TD bs es) k =
     (case lookup es k of None \<Rightarrow> False | Some v \<Rightarrow> is_tensor_collection v)"
| "entry_is_collection (LazyStack xs) k = (xs \<noteq> [] \<and> (\<forall>x \<in> set xs. entry_is_collection x k))"
| "entry_is_collection v k = False"

text \<open>\<^verbatim>\<open>skim_through(td, reset)\<close>, used when no key list is given.\<close>

function skim_through :: "nat \<Rightarrow> node \<Rightarrow> tensor \<Rightarrow> exn + tensor" where
  "skim_through n td reset =
     (case keys td of
        Inl e \<Rightarrow> Inl e
      | Inr ks \<Rightarrow>
          fold_err
            (\<lambda>key reset.
                if key = ''_reset'' then
                  (case get td key of
                     Inl e \<Rightarrow> Inl e
                   | Inr (Leaf local_reset) \<Rightarrow>
                       t_or reset (if ndim local_reset > n then any_from n local_reset
                                   else local_reset)
                   | Inr v \<Rightarrow> Inl (TypeError ''unsupported operand type(s) for |''))
                else if entry_is_collection td key then
                  (case get td key of
                     Inl e \<Rightarrow> Inl e
                   | Inr val \<Rightarrow> skim_through n val reset)
                else Inr reset)
            ks reset)"
  by pat_completeness auto

termination skim_through
  by (relation "measure (\<lambda>(n, td, reset). size td)") (auto dest: get_size)

declare skim_through.simps [simp del]

text \<open>
  \<^verbatim>\<open>_aggregate_end_of_traj(data, reset_keys, done_keys)\<close>. When the reset keys are derived
  from the done keys they form a Python set, whose iteration order is not fixed:
  \<open>set_order\<close> stands for it (a function that lists the distinct members of its argument).
\<close>

definition effective_reset_keys ::
  "(key list \<Rightarrow> key list) \<Rightarrow> key list option \<Rightarrow> key list option \<Rightarrow> key list option" where
  "effective_reset_keys set_order reset_keys done_keys =
     (case (done_keys, reset_keys) of
        (Some dks, None) \<Rightarrow> Some (set_order (map (\<lambda>key. replace_last key ''done'') dks))
      | _ \<Rightarrow> reset_keys)"

definition u_aggregate_end_of_traj ::
  "(key list \<Rightarrow> key list) \<Rightarrow> node \<Rightarrow> key list option \<Rightarrow> key list option \<Rightarrow> exn + reset_value" where
  "u_aggregate_end_of_traj set_order data reset_keys done_keys =
     (let batch_size = batch_size data;
          n = length batch_size
      in case effective_reset_keys set_order reset_keys done_keys of
           Some ks \<Rightarrow>
             (case reset_keys_loop data n ks PyFalse None of
                Inl e \<Rightarrow> Inl e
              | Inr (reset, has_missing) \<Rightarrow>
                  if has_missing = Some True then Inr (ResetT (ones_bool batch_size))
                  else Inr reset)
         | None \<Rightarrow>
             (case skim_through n data (BoolT [] [False]) of
                Inl e \<Rightarrow> Inl e
              | Inr reset \<Rightarrow> Inr (ResetT reset)))"

text \<open>A reset entry as the environment writes it: absent, or a boolean tensor that starts
  with the batch shape of the batch.\<close>

definition reset_entry_ok :: "node \<Rightarrow> key \<Rightarrow> bool" where
  "reset_entry_ok data k =
     (case get_path data k of
        Inr None \<Rightarrow> True
      | Inr (Some (Leaf (BoolT s d))) \<Rightarrow>
          take (length (batch_size data)) s = batch_size data \<and> length d = prod_list s
      | _ \<Rightarrow> False)"

section \<open>Merging the reset batch\<close>

subsection \<open>The masked merge of the batch container\<close>

text \<open>\<^verbatim>\<open>expand_as_right(mask, tensor)\<close>: the mask, whose shape must start the tensor's
  shape, repeated over the tensor's trailing dimensions.\<close>

definition expand_as_right :: "tensor \<Rightarrow> nat list \<Rightarrow> exn + bool list" where
  "expand_as_right condition s =
     (case condition of
        BoolT ms m \<Rightarrow>
          if take (length ms) s = ms
          then Inr (concat (map (replicate (prod_list (drop (length ms) s))) m))
          else Inl (RuntimeError ''expand_as_right: the shapes do not match'')
      | FloatT ms m \<Rightarrow> Inl (RuntimeError ''where expected condition to be a boolean tensor''))"

fun select :: "bool list \<Rightarrow> 'a list \<Rightarrow> 'a list \<Rightarrow> 'a list" where
  "select (c # cs) (x # xs) (y # ys) = (if c then x else y) # select cs xs ys"
| "select cs xs ys = []"

text \<open>\<^verbatim>\<open>torch.where(expand_as_right(condition, a), a, b)\<close>: the elements of \<open>a\<close> where the
  condition holds, those of \<open>b\<close> elsewhere; booleans and numbers mix as numbers.\<close>

definition where_tensor :: "tensor \<Rightarrow> tensor \<Rightarrow> tensor \<Rightarrow> exn + tensor" where
  "where_tensor condition a b =
     (case expand_as_right condition (shape a) of
        Inl e \<Rightarrow> Inl e
      | Inr c \<Rightarrow>
          if shape a = shape b then
            (if is_bool a \<and> is_bool b
             then Inr (BoolT (shape a) (select c (bool_data a) (bool_data b)))
             else Inr (FloatT (shape a) (select c (to_float a) (to_float b))))
          else
            (case broadcast_shapes (shape a) (shape b) of
               None \<Rightarrow> Inl (RuntimeError ''The size of tensor a must match the size of tensor b'')
             | Some u \<Rightarrow>
                 Inr (FloatT u (select (broadcast_to (shape a) u c)
                                  (broadcast_to (shape a) u (to_float a))
                                  (broadcast_to (shape b) u (to_float b))))))"

text \<open>With \<^verbatim>\<open>pad=0\<close>: an entry only one side holds is merged with zeros.\<close>

definition where_pad :: "tensor \<Rightarrow> tensor option \<Rightarrow> tensor option \<Rightarrow> exn + tensor" where
  "where_pad condition a b =
     (case (a, b) of
        (Some x, Some y) \<Rightarrow> where_tensor condition x y
      | (Some x, None) \<Rightarrow>
          (case expand_as_right condition (shape x) of
             Inl e \<Rightarrow> Inl e
           | Inr c \<Rightarrow> Inr (FloatT (shape x) (map2 (\<lambda>c v. if c then v else 0) c (to_float x))))
      | (None, Some y) \<Rightarrow>
          (case expand_as_right condition (shape y) of
             Inl e \<Rightarrow> Inl e
           | Inr c \<Rightarrow> Inr (FloatT (shape y) (map2 (\<lambda>c v. if c then 0 else v) c (to_float y))))
      | (None, None) \<Rightarrow> Inl (KeyError ''where''))"

fun opt_size :: "node option \<Rightarrow> nat" where
  "opt_size None = 0"
| "opt_size (Some v) = Suc (size v)"

lemma opt_size_get_str: "get_str x k = Inr a \<Longrightarrow> opt_size a \<le> size x"
  by (cases a) (auto dest: get_str_size)

text \<open>The entry of an optional batch: absent when the batch is.\<close>

definition get_opt :: "node option \<Rightarrow> string \<Rightarrow> exn + node option" where
  "get_opt x k = (case x of None \<Rightarrow> Inr None | Some v \<Rightarrow> get_str v k)"

lemma opt_size_get_opt: "get_opt x k = Inr a \<Longrightarrow> opt_size a \<le> opt_size x"
  by (cases x) (auto simp: get_opt_def dest: opt_size_get_str)

definition keys_opt :: "node option \<Rightarrow> exn + string list" where
  "keys_opt x = (case x of None \<Rightarrow> Inr [] | Some v \<Rightarrow> keys v)"

definition unbind_opt :: "nat \<Rightarrow> node option \<Rightarrow> exn + node option list" where
  "unbind_opt n x =
     (case x of
        None \<Rightarrow> Inr (replicate n None)
      | Some v \<Rightarrow> (case unbind v of Inl e \<Rightarrow> Inl e | Inr vs \<Rightarrow> Inr (map Some vs)))"

lemma unbind_opt_size: "unbind_opt n x = Inr vs \<Longrightarrow> v \<in> set vs \<Longrightarrow> opt_size v \<le> opt_size x"
  using unbind_size [of "the x" _ "the v"]
  by (cases x) (auto simp: unbind_opt_def split: sum.splits)

text \<open>
  \<^verbatim>\<open>node.where(condition, other=node_reset, out=node, pad=0)\<close>: the entries of both
  batches, key by key, sub-batches merged in turn; a side that does not hold the key is
  \<open>None\<close>. A stacked batch is merged member by member, the condition and the other
  batch split along the stack dimension. The result takes the place of the node.
\<close>

function (sequential) td_where :: "tensor \<Rightarrow> node option \<Rightarrow> node option \<Rightarrow> exn + node" where
  "td_where condition None None = Inl (KeyError ''where'')"
| "td_where condition (Some (Failing e)) other = Inl e"
| "td_where condition self (Some (Failing e)) = Inl e"
| "td_where condition (Some (Obj v)) other =
     Inl (AttributeError ''object has no attribute where'')"
| "td_where condition (Some (Leaf a)) (Some (Leaf b)) =
     (case where_pad condition (Some a) (Some b) of Inl e \<Rightarrow> Inl e | Inr t \<Rightarrow> Inr (Leaf t))"
| "td_where condition (Some (Leaf a)) None =
     (case where_pad condition (Some a) None of Inl e \<Rightarrow> Inl e | Inr t \<Rightarrow> Inr (Leaf t))"
| "td_where condition None (Some (Leaf b)) =
     (case where_pad condition None (Some b) of Inl e \<Rightarrow> Inl e | Inr t \<Rightarrow> Inr (Leaf t))"
| "td_where condition (Some (Leaf a)) (Some other) =
     Inl (TypeError ''where: a tensor cannot be merged with a batch'')"
| "td_where condition (Some (LazyStack xs)) other =
     (case unbind (Leaf condition) of
        Inl e \<Rightarrow> Inl e
      | Inr conditions \<Rightarrow>
          (case unbind_opt (length xs) other of
             Inl e \<Rightarrow> Inl e
           | Inr others \<Rightarrow>
               (case sequence
                       (map (\<lambda>(x, c, other').
                               case c of
                                 Leaf c' \<Rightarrow> td_where c' (Some x) other'
                               | _ \<Rightarrow> Inl (TypeError ''where: the condition is not a tensor''))
                          (zip xs (zip conditions others)))
                of Inl e \<Rightarrow> Inl e | Inr xs' \<Rightarrow> Inr (LazyStack xs'))))"
| "td_where condition (Some (TD bs es)) (Some (Leaf b)) =
     Inl (TypeError ''where: a batch cannot be merged with a tensor'')"
| "td_where condition (Some (TD bs es)) other =
     (case keys_opt other of
        Inl e \<Rightarrow> Inl e
      | Inr other_keys \<Rightarrow>
          (case sequence
                  (map (\<lambda>k. case get_str (TD bs es) k of
                               Inl e \<Rightarrow> Inl e
                             | Inr a \<Rightarrow>
                                 (case get_opt other k of
                                    Inl e \<Rightarrow> Inl e
                                  | Inr b \<Rightarrow>
                                      (case td_where condition a b of
                                         Inl e \<Rightarrow> Inl e
                                       | Inr v \<Rightarrow> Inr (k, v))))
                     (map fst es @ filter (\<lambda>k. lookup es k = None) other_keys))
           of Inl e \<Rightarrow> Inl e | Inr es'' \<Rightarrow> Inr (TD bs es'')))"
| "td_where condition None (Some other) =
     (case keys other of
        Inl e \<Rightarrow> Inl e
      | Inr other_keys \<Rightarrow>
          (case sequence
                  (map (\<lambda>k. case get_str other k of
                               Inl e \<Rightarrow> Inl e
                             | Inr b \<Rightarrow>
                                 (case td_where condition None b of
                                    Inl e \<Rightarrow> Inl e
                                  | Inr v \<Rightarrow> Inr (k, v)))
                     other_keys)
           of Inl e \<Rightarrow> Inl e | Inr es'' \<Rightarrow> Inr (TD (batch_size other) es'')))"
  by pat_completeness auto

lemma where_stack_smaller:
  "unbind_opt n other = Inr others \<Longrightarrow> x \<in> set (zip xs (zip conditions others)) \<Longrightarrow>
   (xa, y) = x \<Longrightarrow> (xb, ya) = y \<Longrightarrow>
   ((c, Some xa, ya), condition, Some (LazyStack xs), other)
     \<in> measure (\<lambda>(condition, self, other). opt_size self + opt_size other)"
  using unbind_opt_size [of n other others ya] size_member [of xa xs]
    set_zip_leftD [of xa y xs "zip conditions others"]
    set_zip_rightD [of xa y xs "zip conditions others"]
    set_zip_rightD [of xb ya conditions others]
  by auto

lemma where_entry_smaller:
  "get_str (TD bs es) k = Inr a \<Longrightarrow> get_opt other k = Inr b \<Longrightarrow>
   ((condition, a, b), condition, Some (TD bs es), other)
     \<in> measure (\<lambda>(condition, self, other). opt_size self + opt_size other)"
  using opt_size_get_str [of "TD bs es" k a] opt_size_get_opt [of other k b] by simp

lemma where_other_smaller:
  "get_str other k = Inr b \<Longrightarrow>
   ((condition, None, b), condition, None, Some other)
     \<in> measure (\<lambda>(condition, self, other). opt_size self + opt_size other)"
  using opt_size_get_str [of other k b] by simp

termination td_where
  apply (relation "measure (\<lambda>(condition, self, other). opt_size self + opt_size other)")
  subgoal by simp
             apply (erule (3) where_stack_smaller | erule (1) where_entry_smaller
      | erule where_other_smaller)+
  done

declare td_where.simps [simp del]

subsection \<open>The loop over the reset keys\<close>

text \<open>\<^verbatim>\<open>td.get(node_key)\<close> for a key path: a missing entry raises.\<close>

definition get_nested :: "node \<Rightarrow> key \<Rightarrow> exn + node" where
  "get_nested td p =
     (case get_path td p of
        Inl e \<Rightarrow> Inl e
      | Inr None \<Rightarrow> Inl (KeyError (concat p))
      | Inr (Some v) \<Rightarrow> Inr v)"

text \<open>
  The node of a reset key in a batch. The keys have gone through \<^verbatim>\<open>unravel_key\<close>: a key of
  one segment is the string itself and its node is the batch; any other key is a tuple and
  its node is read at \<^verbatim>\<open>reset_key[:-1]\<close>.
\<close>

definition node_of :: "node \<Rightarrow> key \<Rightarrow> exn + node" where
  "node_of td reset_key =
     (if length reset_key \<noteq> 1 then get_nested td (butlast reset_key) else Inr td)"

text \<open>\<^verbatim>\<open>td.pop(key, None)\<close>: the entry, removed from the batch, or \<^verbatim>\<open>None\<close> and the batch
  as it was.\<close>

definition pop_path :: "node \<Rightarrow> key \<Rightarrow> exn + node option \<times> node" where
  "pop_path td p =
     (case get_path td p of
        Inl e \<Rightarrow> Inl e
      | Inr None \<Rightarrow> Inr (None, td)
      | Inr (Some v) \<Rightarrow> Inr (Some v, del_path td p))"

text \<open>
  The node is a reference into the batch, and \<^verbatim>\<open>update\<close> and \<^verbatim>\<open>where(..., out=node)\<close>
  change it in place: afterwards the batch holds, at the node's key, what the node has
  become.
\<close>

fun put_path :: "node \<Rightarrow> key \<Rightarrow> node \<Rightarrow> exn + node" where
  "put_path td [] v = Inr v"
| "put_path td (k # ks) v =
     (case get td k of
        Inl e \<Rightarrow> Inl e
      | Inr sub \<Rightarrow> (case put_path sub ks v of Inl e \<Rightarrow> Inl e | Inr sub' \<Rightarrow> set_str td k sub'))"

text \<open>
  The mask of a signal that is not all true: trailing dimensions beyond the node's are
  flattened and reduced with \<^verbatim>\<open>any(-1)\<close>, then the signal is reshaped to the node's shape.
\<close>

definition reset_mask :: "tensor \<Rightarrow> node \<Rightarrow> exn + tensor" where
  "reset_mask reset node =
     reshape
       (if ndim reset > length (batch_size node)
        then any_from (length (batch_size node)) reset else reset)
       (batch_size node)"

text \<open>
  What happens to the node of a key that is not skipped: \<^verbatim>\<open>node.update(node_reset)\<close> when
  the signal is \<^verbatim>\<open>None\<close> or all true, the masked merge otherwise. The signal of the model
  is a tensor; one that is a batch is answered with an error.
\<close>

definition merge_node :: "node option \<Rightarrow> node \<Rightarrow> node \<Rightarrow> exn + node" where
  "merge_node reset node node_reset =
     (case reset of
        None \<Rightarrow> td_update node node_reset
      | Some (Leaf r) \<Rightarrow>
          if t_all r then td_update node node_reset
          else
            (case reset_mask r node of
               Inl e \<Rightarrow> Inl e
             | Inr reset' \<Rightarrow>
                 (case t_not reset' of
                    Inl e \<Rightarrow> Inl e
                  | Inr condition \<Rightarrow> td_where condition (Some node) (Some node_reset)))
      | Some v \<Rightarrow> Inl (TypeError ''the reset signal is not a tensor''))"

text \<open>
  One turn of the loop of \<^verbatim>\<open>_update_during_reset\<close>, on the batch and the set \<^verbatim>\<open>roots\<close>.
  The two nodes are read first, then the signal is popped (the node, a reference, loses
  it too), then the key is skipped or its node merged.
\<close>

definition udr_step :: "node \<Rightarrow> node \<times> key set \<Rightarrow> key \<Rightarrow> exn + node \<times> key set" where
  "udr_step tensordict_reset s reset_key =
     (case s of (tensordict, roots) \<Rightarrow>
        (case node_of tensordict_reset reset_key of
           Inl e \<Rightarrow> Inl e
         | Inr node_reset \<Rightarrow>
             (case node_of tensordict reset_key of
                Inl e \<Rightarrow> Inl e
              | Inr node0 \<Rightarrow>
                  (case pop_path tensordict reset_key of
                     Inl e \<Rightarrow> Inl e
                   | Inr (reset, tensordict1) \<Rightarrow>
                       let root = butlast reset_key;
                           processed = (\<exists>x \<in> roots. take (length x) reset_key = x);
                           roots' = insert root roots
                       in if processed then Inr (tensordict1, roots')
                          else
                            (case node_of tensordict1 reset_key of
                               Inl e \<Rightarrow> Inl e
                             | Inr node \<Rightarrow>
                                 (case merge_node reset node node_reset of
                                    Inl e \<Rightarrow> Inl e
                                  | Inr node' \<Rightarrow>
                                      (case put_path tensordict1 root node' of
                                         Inl e \<Rightarrow> Inl e
                                       | Inr tensordict2 \<Rightarrow> Inr (tensordict2, roots'))))))))"

fun udr_loop :: "node \<Rightarrow> node \<times> key set \<Rightarrow> key list \<Rightarrow> exn + node \<times> key set" where
  "udr_loop tensordict_reset s [] = Inr s"
| "udr_loop tensordict_reset s (reset_key # reset_keys) =
     (case udr_step tensordict_reset s reset_key of
        Inl e \<Rightarrow> Inl e
      | Inr s' \<Rightarrow> udr_loop tensordict_reset s' reset_keys)"

text \<open>\<^verbatim>\<open>_update_during_reset(tensordict_reset, tensordict, reset_keys)\<close>.\<close>

definition u_update_during_reset :: "node \<Rightarrow> node \<Rightarrow> key list \<Rightarrow> exn + node" where
  "u_update_during_reset tensordict_reset tensordict reset_keys =
     (case udr_loop tensordict_reset (tensordict, {}) reset_keys of
        Inl e \<Rightarrow> Inl e
      | Inr (tensordict', roots) \<Rightarrow> Inr tensordict')"

text \<open>The batches of the examples: two environments; the first is reset.\<close>

definition current_batch :: node where
  "current_batch =
     TD [2]
       [(''obs'', Leaf (FloatT [2, 2] [1, 2, 3, 4])),
        (''action'', Leaf (FloatT [2] [5, 6])),
        (''_reset'', Leaf (BoolT [2, 1] [True, False])),
        (''agents'',
           TD [2]
             [(''state'', Leaf (FloatT [2] [7, 8])),
              (''_reset'', Leaf (BoolT [2, 1] [True, False]))])]"

definition reset_batch :: node where
  "reset_batch =
     TD [2]
       [(''obs'', Leaf (FloatT [2, 2] [10, 20, 30, 40])),
        (''agents'', TD [2] [(''state'', Leaf (FloatT [2] [70, 80]))])]"


text \<open>The current batch after the key \<^verbatim>\<open>"_reset"\<close> has been processed against
  \<open>reset_batch\<close>.\<close>

definition after_first_key :: node where
  "after_first_key =
     TD [2]
       [(''obs'', Leaf (FloatT [2, 2] [10, 20, 3, 4])),
        (''action'', Leaf (FloatT [2] [0, 6])),
        (''agents'',
         TD [2]
          [(''state'', Leaf (FloatT [2] [70, 8])),
           (''_reset'', Leaf (FloatT [2, 1] [0, 0]))])]"
subsection \<open>Reading the merged batch\<close>

text \<open>A plain batch: nested plain batches and tensors, the keys of each batch distinct;
  no stack, no failing entry, no stored object.\<close>

fun plain :: "node \<Rightarrow> bool" where
  "plain (Leaf t) = True"
| "plain (TD bs es) = (distinct (map fst es) \<and> (\<forall>(k, v) \<in> set es. plain v))"
| "plain (LazyStack xs) = False"
| "plain (Failing e) = False"
| "plain (Obj v) = False"

definition plain_batch :: "node \<Rightarrow> bool" where
  "plain_batch td = (plain td \<and> is_tensor_collection td)"


text \<open>The entry of a plain batch under a key.\<close>

fun entries :: "node \<Rightarrow> string \<Rightarrow> node option" where
  "entries (TD bs es) k = lookup es k"
| "entries v k = None"





declare step_mdp.simps [simp del]

section \<open>Scenario A\<close>

text \<open>
  Claim C4. For the batch \<^verbatim>\<open>{done: false, reward: 0.0, extra: 0.0, action: 0.0,
  next: {done: false, reward: 0.0, obs: 1.0}, obs: 0.0}\<close>, \<^verbatim>\<open>step_mdp\<close> with its default
  configuration (keep_other, exclude_reward and exclude_action set, exclude_done unset,
  the keys \<^verbatim>\<open>reward\<close>, \<^verbatim>\<open>done\<close>, \<^verbatim>\<open>action\<close>, no destination batch) returns exactly
  \<^verbatim>\<open>{done: false, extra: 0.0, obs: 1.0}\<close>: reward and action are dropped, \<^verbatim>\<open>extra\<close> is
  carried over, \<^verbatim>\<open>done\<close> and \<^verbatim>\<open>obs\<close> hold the values of the next sub-batch.
\<close>

theorem step_mdp_scenario_A:
  "step_mdp
     (TD [] [(''done'', Leaf (BoolT [] [False])),
             (''reward'', Leaf (FloatT [] [0])),
             (''extra'', Leaf (FloatT [] [0])),
             (''action'', Leaf (FloatT [] [0])),
             (''next'', TD [] [(''done'', Leaf (BoolT [] [False])),
                               (''reward'', Leaf (FloatT [] [0])),
                               (''obs'', Leaf (FloatT [] [1]))]),
             (''obs'', Leaf (FloatT [] [0]))])
     None True True False True [[''reward'']] [[''done'']] [[''action'']]
   = Inr (TD [] [(''done'', Leaf (BoolT [] [False])),
                 (''extra'', Leaf (FloatT [] [0])),
                 (''obs'', Leaf (FloatT [] [1]))])"
  by (simp add: step_mdp.simps exclusion_def generic_copy_def get_def write_back_def)

section \<open>Failures during key copying\<close>

lemma u_set_het_members:
  "u_set_het ss ds key tk ex acc = (Inr b, ds') \<Longrightarrow> length ds = length ss \<Longrightarrow>
     ds' = map (\<lambda>(s, d). snd (u_set s d key tk ex)) (zip ss ds) \<and>
     (\<forall>(s, d) \<in> set (zip ss ds). \<exists>bi. fst (u_set s d key tk ex) = Inr bi) \<and>
     (b \<longleftrightarrow> acc \<or> (\<exists>(s, d) \<in> set (zip ss ds). fst (u_set s d key tk ex) = Inr True))"
proof (induction ss arbitrary: ds acc b ds')
  case Nil
  then show ?case by simp
next
  case (Cons s ss)
  then obtain d ds0 where ds: "ds = d # ds0" by (cases ds) auto
  obtain r1 d1 where u: "u_set s d key tk ex = (r1, d1)" by (cases "u_set s d key tk ex")
  from Cons.prems(1) ds u obtain b1 where r1: "r1 = Inr b1"
    by (cases r1) auto
  obtain r2 ds2 where h: "u_set_het ss ds0 key tk ex (b1 \<or> acc) = (r2, ds2)"
    by (cases "u_set_het ss ds0 key tk ex (b1 \<or> acc)")
  from Cons.prems(1) ds u r1 h have r2: "r2 = Inr b" and ds': "ds' = d1 # ds2" by auto
  from Cons.IH [OF h [unfolded r2]] Cons.prems(2) ds
  have IH: "ds2 = map (\<lambda>(s, d). snd (u_set s d key tk ex)) (zip ss ds0)"
    "\<forall>(s, d) \<in> set (zip ss ds0). \<exists>bi. fst (u_set s d key tk ex) = Inr bi"
    "b \<longleftrightarrow> (b1 \<or> acc) \<or> (\<exists>(s, d) \<in> set (zip ss ds0). fst (u_set s d key tk ex) = Inr True)"
    by auto
  show ?case using IH ds ds' u r1 by auto
qed

lemma u_set_het_total:
  "length ds = length ss \<Longrightarrow> \<forall>(s, d) \<in> set (zip ss ds). \<exists>bi. fst (u_set s d key tk ex) = Inr bi \<Longrightarrow>
   \<exists>b ds'. u_set_het ss ds key tk ex acc = (Inr b, ds')"
proof (induction ss arbitrary: ds acc)
  case Nil
  then show ?case by simp
next
  case (Cons s ss)
  then obtain d ds0 where ds: "ds = d # ds0" by (cases ds) auto
  from Cons.prems ds obtain b1 where "fst (u_set s d key tk ex) = Inr b1" by auto
  then obtain d1 where u: "u_set s d key tk ex = (Inr b1, d1)" by (cases "u_set s d key tk ex") auto
  from Cons.IH [of ds0 "b1 \<or> acc"] Cons.prems ds
  obtain b ds' where "u_set_het ss ds0 key tk ex (b1 \<or> acc) = (Inr b, ds')" by auto
  then show ?case using ds u by simp
qed


lemma u_set_single_key_het_members:
  "length ds = length ss \<Longrightarrow>
   \<forall>(s, d) \<in> set (zip ss ds). fst (u_set_single_key s d [k]) = Inr () \<Longrightarrow>
   u_set_single_key_het ss ds k =
     (Inr (), map (\<lambda>(s, d). snd (u_set_single_key s d [k])) (zip ss ds))"
proof (induction ss arbitrary: ds)
  case Nil
  then show ?case by simp
next
  case (Cons s ss)
  then obtain d ds0 where ds: "ds = d # ds0" by (cases ds) auto
  from Cons.prems ds obtain d1 where u: "u_set_single_key s d [k] = (Inr (), d1)"
    by (cases "u_set_single_key s d [k]") auto
  from Cons.IH [of ds0] Cons.prems ds
  have "u_set_single_key_het ss ds0 k =
     (Inr (), map (\<lambda>(s, d). snd (u_set_single_key s d [k])) (zip ss ds0))" by auto
  then show ?case using ds u by simp
qed

lemma u_set_lookup_raises:
  assumes "total_key @ [key] \<notin> excluded" and "get source key = Inl err"
  shows "u_set source dest key total_key excluded =
     (if is_het_error err then
        (case source of
           LazyStack s_tds \<Rightarrow>
             (case dest of
                LazyStack d_tds \<Rightarrow>
                  (case u_set_het s_tds d_tds key (total_key @ [key]) excluded False of
                     (r, d_tds') \<Rightarrow> (r, LazyStack d_tds'))
              | _ \<Rightarrow> (Inl (AttributeError ''object has no attribute tensordicts''), dest))
         | _ \<Rightarrow> (Inl (AttributeError ''object has no attribute tensordicts''), dest))
      else (Inl err, dest))"
  using assms by simp

lemma u_set_single_key_lookup_raises:
  assumes "get_str source k = Inl err"
  shows "u_set_single_key source dest (k # ks) =
     (if is_het_error err then
        (case source of
           LazyStack s_tds \<Rightarrow>
             (case dest of
                LazyStack d_tds \<Rightarrow>
                  (case u_set_single_key_het s_tds d_tds k of
                     (r, d_tds') \<Rightarrow> (r, LazyStack d_tds'))
              | _ \<Rightarrow> (Inl (AttributeError ''object has no attribute tensordicts''), dest))
         | _ \<Rightarrow> (Inl (AttributeError ''object has no attribute tensordicts''), dest))
      else (Inl err, dest))"
  using assms by (simp add: u_set_single_key_try_def)

lemma u_set_single_key_absent:
  assumes "get_str s key = Inr None"
  shows "u_set_single_key s (TD bs es) [key] = (Inr (), TD bs (upd key (Obj PyNone) es))"
  using assms by (simp add: u_set_single_key_try_def)

text \<open>
  Claim C8. In \<^verbatim>\<open>_set\<close> and \<^verbatim>\<open>_set_single_key\<close>, when the lookup of the key in the source
  raises: a failure that is not a \<^verbatim>\<open>RuntimeError\<close> whose message starts with the
  heterogeneous-shape pattern leaves the call unchanged, with the destination untouched,
  whatever its class and message; a failure that matches, on a stacked source and
  destination, is replaced by the loop of the same call over the pairs of members (for
  \<^verbatim>\<open>_set\<close> with the extended \<^verbatim>\<open>total_key\<close>, for \<^verbatim>\<open>_set_single_key\<close> with the one
  segment), whatever the members' calls do; when none of them raises, the destination is
  the stack of the members so written. A member that lacks the key does not make
  \<^verbatim>\<open>_set_single_key\<close> raise: \<^verbatim>\<open>None\<close> is stored under the key.
\<close>

theorem heterogeneous_shape_policy:
  "(get source key = Inl err \<and> \<not> is_het_error err \<and> total_key @ [key] \<notin> excluded
      \<longrightarrow> u_set source dest key total_key excluded = (Inl err, dest))
   \<and> (get_str source key = Inl err \<and> \<not> is_het_error err
      \<longrightarrow> u_set_single_key source dest (key # ks) = (Inl err, dest))
   \<and> (get (LazyStack s_tds) key = Inl err \<and> is_het_error err \<and> total_key @ [key] \<notin> excluded
      \<longrightarrow> u_set (LazyStack s_tds) (LazyStack d_tds) key total_key excluded =
            (case u_set_het s_tds d_tds key (total_key @ [key]) excluded False of
               (r, d_tds') \<Rightarrow> (r, LazyStack d_tds')))
   \<and> (get (LazyStack s_tds) key = Inl err \<and> is_het_error err \<and> total_key @ [key] \<notin> excluded
       \<and> length d_tds = length s_tds
       \<and> (\<forall>(s, d) \<in> set (zip s_tds d_tds).
             \<exists>b. fst (u_set s d key (total_key @ [key]) excluded) = Inr b)
      \<longrightarrow> u_set (LazyStack s_tds) (LazyStack d_tds) key total_key excluded =
            (Inr (\<exists>(s, d) \<in> set (zip s_tds d_tds).
                     fst (u_set s d key (total_key @ [key]) excluded) = Inr True),
             LazyStack (map (\<lambda>(s, d). snd (u_set s d key (total_key @ [key]) excluded))
                          (zip s_tds d_tds))))
   \<and> (get_str (LazyStack s_tds) key = Inl err \<and> is_het_error err
      \<longrightarrow> u_set_single_key (LazyStack s_tds) (LazyStack d_tds) (key # ks) =
            (case u_set_single_key_het s_tds d_tds key of
               (r, d_tds') \<Rightarrow> (r, LazyStack d_tds')))
   \<and> (get_str (LazyStack s_tds) key = Inl err \<and> is_het_error err
       \<and> length d_tds = length s_tds
       \<and> (\<forall>(s, d) \<in> set (zip s_tds d_tds). fst (u_set_single_key s d [key]) = Inr ())
      \<longrightarrow> u_set_single_key (LazyStack s_tds) (LazyStack d_tds) (key # ks) =
            (Inr (),
             LazyStack (map (\<lambda>(s, d). snd (u_set_single_key s d [key])) (zip s_tds d_tds))))
   \<and> (get_str source key = Inr None
      \<longrightarrow> u_set_single_key source (TD bs es) [key] = (Inr (), TD bs (upd key (Obj PyNone) es)))"
proof (intro conjI impI)
  assume "get source key = Inl err \<and> \<not> is_het_error err \<and> total_key @ [key] \<notin> excluded"
  then show "u_set source dest key total_key excluded = (Inl err, dest)"
    using u_set_lookup_raises [of total_key key excluded source err dest] by simp
next
  assume "get_str source key = Inl err \<and> \<not> is_het_error err"
  then show "u_set_single_key source dest (key # ks) = (Inl err, dest)"
    using u_set_single_key_lookup_raises [of source key err dest ks] by simp
next
  assume "get (LazyStack s_tds) key = Inl err \<and> is_het_error err \<and> total_key @ [key] \<notin> excluded"
  then show "u_set (LazyStack s_tds) (LazyStack d_tds) key total_key excluded =
            (case u_set_het s_tds d_tds key (total_key @ [key]) excluded False of
               (r, d_tds') \<Rightarrow> (r, LazyStack d_tds'))"
    using u_set_lookup_raises [of total_key key excluded "LazyStack s_tds" err "LazyStack d_tds"]
    by simp
next
  assume a: "get (LazyStack s_tds) key = Inl err \<and> is_het_error err
       \<and> total_key @ [key] \<notin> excluded \<and> length d_tds = length s_tds
       \<and> (\<forall>(s, d) \<in> set (zip s_tds d_tds).
             \<exists>b. fst (u_set s d key (total_key @ [key]) excluded) = Inr b)"
  then obtain b ds' where h: "u_set_het s_tds d_tds key (total_key @ [key]) excluded False = (Inr b, ds')"
    using u_set_het_total [of d_tds s_tds key "total_key @ [key]" excluded False] by auto
  from u_set_het_members [OF h] a
  have "ds' = map (\<lambda>(s, d). snd (u_set s d key (total_key @ [key]) excluded)) (zip s_tds d_tds)"
    and "b \<longleftrightarrow> (\<exists>(s, d) \<in> set (zip s_tds d_tds).
                     fst (u_set s d key (total_key @ [key]) excluded) = Inr True)"
    by auto
  then show "u_set (LazyStack s_tds) (LazyStack d_tds) key total_key excluded =
            (Inr (\<exists>(s, d) \<in> set (zip s_tds d_tds).
                     fst (u_set s d key (total_key @ [key]) excluded) = Inr True),
             LazyStack (map (\<lambda>(s, d). snd (u_set s d key (total_key @ [key]) excluded))
                          (zip s_tds d_tds)))"
    using u_set_lookup_raises [of total_key key excluded "LazyStack s_tds" err "LazyStack d_tds"] a h
    by simp
next
  assume "get_str (LazyStack s_tds) key = Inl err \<and> is_het_error err"
  then show "u_set_single_key (LazyStack s_tds) (LazyStack d_tds) (key # ks) =
            (case u_set_single_key_het s_tds d_tds key of
               (r, d_tds') \<Rightarrow> (r, LazyStack d_tds'))"
    using u_set_single_key_lookup_raises [of "LazyStack s_tds" key err "LazyStack d_tds" ks]
    by simp
next
  assume a: "get_str (LazyStack s_tds) key = Inl err \<and> is_het_error err
       \<and> length d_tds = length s_tds
       \<and> (\<forall>(s, d) \<in> set (zip s_tds d_tds). fst (u_set_single_key s d [key]) = Inr ())"
  then show "u_set_single_key (LazyStack s_tds) (LazyStack d_tds) (key # ks) =
            (Inr (),
             LazyStack (map (\<lambda>(s, d). snd (u_set_single_key s d [key])) (zip s_tds d_tds)))"
    using u_set_single_key_lookup_raises [of "LazyStack s_tds" key err "LazyStack d_tds" ks]
      u_set_single_key_het_members [of d_tds s_tds key]
    by simp
next
  assume "get_str source key = Inr None"
  then show "u_set_single_key source (TD bs es) [key] = (Inr (), TD bs (upd key (Obj PyNone) es))"
    by (rule u_set_single_key_absent)
qed


theorem heterogeneous_shape_policy_witness:
  "get (TD [] [(''obs'', Failing (RuntimeError ''CUDA error''))]) ''obs'' = Inl (RuntimeError ''CUDA error'')
   \<and> \<not> is_het_error (RuntimeError ''CUDA error'')
   \<and> u_set (TD [] [(''obs'', Failing (RuntimeError ''CUDA error''))]) (TD [] []) ''obs'' [] {}
       = (Inl (RuntimeError ''CUDA error''), TD [] [])
   \<and> u_set_single_key (TD [] [(''obs'', Failing (RuntimeError ''CUDA error''))]) (TD [] []) [''obs'']
       = (Inl (RuntimeError ''CUDA error''), TD [] [])
   \<and> get het_member ''obs'' = Inl (RuntimeError HET_MESSAGE)
   \<and> is_het_error (RuntimeError HET_MESSAGE)
   \<and> u_set het_member (LazyStack [TD [] [], TD [] []]) ''obs'' [] {}
       = (Inr True, het_member)
   \<and> u_set_single_key het_member (LazyStack [TD [] [], TD [] []]) [''obs'']
       = (Inr (), het_member)
   \<and> get_str (LazyStack [het_member, TD [] []]) ''obs'' = Inl (RuntimeError HET_MESSAGE)
   \<and> get_str (TD [] []) ''obs'' = Inr None
   \<and> u_set_single_key (TD [] []) (TD [] []) [''obs''] = (Inr (), TD [] [(''obs'', Obj PyNone)])
   \<and> u_set_single_key (LazyStack [het_member, TD [] []])
         (LazyStack [LazyStack [TD [] [], TD [] []], TD [] []]) [''obs'']
       = (Inr (), LazyStack [het_member, TD [] [(''obs'', Obj PyNone)]])"
  using heterogeneous_shape_policy [of "TD [] [(''obs'', Failing (RuntimeError ''CUDA error''))]"
      "''obs''" "RuntimeError ''CUDA error''" "[]" "{}" "TD [] []" "[]" "[]" "[]" "[]" "[]"]
    heterogeneous_shape_policy [of "TD [] []" "''obs''" "RuntimeError HET_MESSAGE" "[]" "{}"
      "TD [] []" "[]"
      "[TD [] [(''obs'', Leaf (FloatT [2] [0, 1]))], TD [] [(''obs'', Leaf (FloatT [3] [0, 1, 2]))]]"
      "[TD [] [], TD [] []]" "[]" "[]"]
    heterogeneous_shape_policy [of "TD [] []" "''obs''" "RuntimeError HET_MESSAGE" "[]" "{}"
      "TD [] []" "[]"
      "[het_member, TD [] []]"
      "[LazyStack [TD [] [], TD [] []], TD [] []]" "[]" "[]"]
  by (simp add: get_def stack_values_def stack_tensors_def is_het_error_def re_match_def
      HET_PATTERN_def HET_MESSAGE_def u_set_single_key_try_def het_member_def)

section \<open>The validation flag\<close>

lemma validate_settled: "self_validated self = Some b \<Longrightarrow> validate self td = (b, self)"
  by (cases b) (simp_all add: validate_def)

lemma validate_first:
  "self_validated self = None \<Longrightarrow>
   validate self td =
     (set (expected_keys self) = set (leaf_keys td),
      self \<lparr> self_validated := Some (set (expected_keys self) = set (leaf_keys td)),
             warnings_issued := (if set (expected_keys self) = set (leaf_keys td)
                                 then warnings_issued self else Suc (warnings_issued self)) \<rparr>)"
  by (simp add: validate_def Let_def)

lemma call_settled:
  "self_validated self = Some b \<Longrightarrow> snd (StepMDP_call self td) = self"
  "self_validated self = Some b \<Longrightarrow> snd (StepMDP_call_each self tds) = self"
  by (induction self td and self tds rule: StepMDP_call_StepMDP_call_each.induct)
    (auto simp: validate_settled split: prod.splits sum.splits option.splits bool.splits)

lemma calls_settled:
  "self_validated self = Some b \<Longrightarrow> foldl (\<lambda>s td. snd (StepMDP_call s td)) self tds = self"
  by (induction tds) (simp_all add: call_settled)

lemma init_unchecked:
  "StepMDP_init e keep_other exclude_reward exclude_done exclude_action = Inr self \<Longrightarrow>
   self_validated self = None \<and> warnings_issued self = 0"
  by (auto simp: StepMDP_init_def Let_def split: sum.splits)

text \<open>
  Claim C3. The key-set validation of the stateful engine is made at most once per
  instance. A new instance is unchecked. On an unchecked instance, \<^verbatim>\<open>validate\<close> compares
  the expected key list (the declared state, action, done and observation keys, and the
  observation, done and reward keys under \<^verbatim>\<open>next\<close>) with the leaf keys of the batch,
  stores the answer, and on a mismatch issues one warning; it has no way to raise.
  Once the flag is set, \<^verbatim>\<open>validate\<close> answers with the stored flag without looking at
  the batch, and no call or sequence of calls of the instance changes the instance: the
  flag stays valid or stays fallback, and no further warning is issued.
\<close>

theorem validation_is_settled_once:
  "(StepMDP_init e keep_other exclude_reward exclude_done exclude_action = Inr self0
      \<longrightarrow> self_validated self0 = None \<and> warnings_issued self0 = 0)
   \<and> (self_validated self = None
      \<longrightarrow> validate self td =
            (set (expected_keys self) = set (leaf_keys td),
             self \<lparr> self_validated := Some (set (expected_keys self) = set (leaf_keys td)),
                    warnings_issued := (if set (expected_keys self) = set (leaf_keys td)
                                        then warnings_issued self
                                        else Suc (warnings_issued self)) \<rparr>))
   \<and> (self_validated self = Some b \<longrightarrow> validate self td = (b, self))
   \<and> (self_validated self = Some b \<longrightarrow> snd (StepMDP_call self td) = self)
   \<and> (self_validated self = Some b
      \<longrightarrow> foldl (\<lambda>s td. snd (StepMDP_call s td)) self tds = self)"
  using init_unchecked [of e keep_other exclude_reward exclude_done exclude_action self0]
    validate_first [of self td] validate_settled [of self b td] call_settled(1) [of self b td]
    calls_settled [of self b tds]
  by blast


lemma example_init: "StepMDP_init example_env True True False True = Inr example_engine"
  by (simp add: StepMDP_init_def example_env_def example_engine_def
      u_repr_key_list_as_tree_def exclusion_def insert_commute)

lemma example_differ: "set (expected_keys example_engine) \<noteq> set (leaf_keys extra_batch)"
proof
  assume a: "set (expected_keys example_engine) = set (leaf_keys extra_batch)"
  have "[''extra''] \<in> set (leaf_keys extra_batch)" by (simp add: extra_batch_def)
  moreover have "[''extra''] \<notin> set (expected_keys example_engine)"
    by (simp add: expected_keys_def example_engine_def)
  ultimately show False using a by simp
qed

theorem validation_is_settled_once_witness:
  "StepMDP_init example_env True True False True = Inr example_engine
   \<and> self_validated example_engine = None
   \<and> validate example_engine extra_batch
       = (False, example_engine \<lparr> self_validated := Some False, warnings_issued := 1 \<rparr>)
   \<and> self_validated (example_engine \<lparr> self_validated := Some False, warnings_issued := 1 \<rparr>)
       = Some False
   \<and> validate (example_engine \<lparr> self_validated := Some False, warnings_issued := 1 \<rparr>)
         matching_batch
       = (False, example_engine \<lparr> self_validated := Some False, warnings_issued := 1 \<rparr>)
   \<and> snd (StepMDP_call (example_engine \<lparr> self_validated := Some False, warnings_issued := 1 \<rparr>)
         matching_batch)
       = example_engine \<lparr> self_validated := Some False, warnings_issued := 1 \<rparr>
   \<and> foldl (\<lambda>s td. snd (StepMDP_call s td))
         (example_engine \<lparr> self_validated := Some False, warnings_issued := 1 \<rparr>)
         [matching_batch, extra_batch, matching_batch]
       = example_engine \<lparr> self_validated := Some False, warnings_issued := 1 \<rparr>"
proof -
  let ?fb = "example_engine \<lparr> self_validated := Some False, warnings_issued := 1 \<rparr>"
  have fresh: "self_validated example_engine = None"
    by (simp add: example_engine_def)
  have zero: "warnings_issued example_engine = 0"
    by (simp add: example_engine_def)
  have settled: "self_validated ?fb = Some False"
    by simp
  note first = validation_is_settled_once [of example_env True True False True example_engine
        example_engine extra_batch False "[]"]
  note later = validation_is_settled_once [of example_env True True False True example_engine
        ?fb matching_batch False "[matching_batch, extra_batch, matching_batch]"]
  have v1: "validate example_engine extra_batch = (False, ?fb)"
  proof -
    from first fresh have "validate example_engine extra_batch =
            (set (expected_keys example_engine) = set (leaf_keys extra_batch),
             example_engine \<lparr> self_validated := Some (set (expected_keys example_engine) = set (leaf_keys extra_batch)),
                    warnings_issued := (if set (expected_keys example_engine) = set (leaf_keys extra_batch)
                                        then warnings_issued example_engine
                                        else Suc (warnings_issued example_engine)) \<rparr>)"
      by blast
    then show ?thesis using example_differ zero by simp
  qed
  from later settled have v2: "validate ?fb matching_batch = (False, ?fb)"
    and c: "snd (StepMDP_call ?fb matching_batch) = ?fb"
    and f: "foldl (\<lambda>s td. snd (StepMDP_call s td)) ?fb [matching_batch, extra_batch, matching_batch] = ?fb"
    by blast+
  show ?thesis using example_init fresh v1 settled v2 c f by blast
qed

section \<open>The walk over the done signals\<close>

lemma lookup_distinct: "distinct (map fst es) \<Longrightarrow> (k, v) \<in> set es \<Longrightarrow> lookup es k = Some v"
  by (induction es) (auto simp: rev_image_eqI)

lemma lookup_upd: "lookup (upd k v es) k' = (if k' = k then Some v else lookup es k')"
  by (induction es) auto

lemma lookup_mem: "lookup es k = Some v \<Longrightarrow> (k, v) \<in> set es"
  by (induction es) (auto split: if_splits)

lemma get_plain:
  assumes "lookup es k = Some v" "plain_entry v"
  shows "get (TD bs es) k = Inr v" and "get_str (TD bs es) k = Inr (Some v)"
  using assms by (cases v; simp add: get_def)+

lemma td_items_sub:
  assumes "\<forall>(k, v) \<in> set es'. lookup es k = Some v \<and> plain_entry v"
  shows "sequence (map (\<lambda>k. case get (TD bs es) k of Inl e \<Rightarrow> Inl e | Inr v \<Rightarrow> Inr (k, v)) (map fst es')) = Inr es'"
  using assms
proof (induction es')
  case Nil
  then show ?case by simp
next
  case (Cons e es')
  obtain k v where e: "e = (k, v)" by (cases e)
  with Cons.prems have "get (TD bs es) k = Inr v" by (auto intro: get_plain)
  with Cons e show ?case by simp
qed

lemma td_items_plain:
  assumes "distinct (map fst es)" and "\<forall>(k, v) \<in> set es. plain_entry v"
  shows "td_items (TD bs es) = Inr es"
proof -
  have "\<forall>(k, v) \<in> set es. lookup es k = Some v \<and> plain_entry v"
    using assms by (auto simp: lookup_distinct)
  from td_items_sub [OF this, of bs] show ?thesis by (simp add: td_items_def)
qed


definition agg_any :: "tensor option \<Rightarrow> bool" where
  "agg_any a = (case a of None \<Rightarrow> False | Some t \<Rightarrow> t_any t)"

definition acc_ok :: "nat list \<Rightarrow> tensor option \<Rightarrow> bool" where
  "acc_ok s a = (case a of None \<Rightarrow> True | Some t \<Rightarrow> (\<exists>d. t = BoolT s d \<and> length d = prod_list s))"

lemma any_map2_or:
  "length a = length b \<Longrightarrow> (\<exists>x \<in> set (map2 (\<or>) a b). x) \<longleftrightarrow> (\<exists>x \<in> set a. x) \<or> (\<exists>x \<in> set b. x)"
proof (induction a arbitrary: b)
  case Nil
  then show ?case by simp
next
  case (Cons x a)
  then obtain y b' where "b = y # b'" by (cases b) auto
  with Cons show ?case by auto
qed

lemma or_into_good:
  assumes "good_leaf bs s v" and "acc_ok s a"
  shows "\<exists>d. or_into a v = Inr (BoolT s d) \<and> length d = prod_list s
           \<and> (t_any (BoolT s d) \<longleftrightarrow> agg_any a \<or> node_any v)"
proof -
  from assms(1) obtain d1 where v: "v = Leaf (BoolT s d1)" and l1: "length d1 = prod_list s"
    by (auto simp: good_leaf_def split: node.splits tensor.splits)
  show ?thesis
  proof (cases a)
    case None
    then show ?thesis using v l1 by (simp add: or_into_def agg_any_def)
  next
    case (Some t)
    with assms(2) obtain d0 where t: "t = BoolT s d0" and l0: "length d0 = prod_list s"
      by (auto simp: acc_ok_def)
    have "(\<exists>x \<in> set (map2 (\<or>) d0 d1). x) \<longleftrightarrow> (\<exists>x \<in> set d0. x) \<or> (\<exists>x \<in> set d1. x)"
      using l0 l1 by (intro any_map2_or) simp
    then show ?thesis using Some t v l0 l1 by (simp add: or_into_def agg_any_def)
  qed
qed

lemma scan_item_fold:
  assumes "\<forall>(k, v) \<in> set es. k \<in> DONE_NAMES \<longrightarrow> good_leaf bs s v" and "acc_ok s a0"
  shows "\<exists>a. fold_err scan_item es (a0, n0, tds0)
              = Inr (a, n0 + length (filter (\<lambda>(k, v). k \<in> DONE_NAMES) es),
                     tds0 @ filter (\<lambda>(k, v). k \<notin> DONE_NAMES \<and> is_tensor_collection v) es)
           \<and> acc_ok s a
           \<and> (agg_any a \<longleftrightarrow> agg_any a0 \<or> (\<exists>(k, v) \<in> set es. k \<in> DONE_NAMES \<and> node_any v))
           \<and> (a = None \<longleftrightarrow> a0 = None \<and> filter (\<lambda>(k, v). k \<in> DONE_NAMES) es = [])"
  using assms
proof (induction es arbitrary: a0 n0 tds0)
  case Nil
  then show ?case by simp
next
  case (Cons e es)
  obtain k v where e: "e = (k, v)" by (cases e)
  show ?case
  proof (cases "k \<in> DONE_NAMES")
    case True
    with Cons.prems e have g: "good_leaf bs s v" by simp
    from or_into_good [OF g Cons.prems(2)] obtain d where
      o: "or_into a0 v = Inr (BoolT s d)" and l: "length d = prod_list s"
      and an: "t_any (BoolT s d) \<longleftrightarrow> agg_any a0 \<or> node_any v" by blast
    have ok: "acc_ok s (Some (BoolT s d))" using l by (simp add: acc_ok_def)
    have rest: "\<forall>(k, v) \<in> set es. k \<in> DONE_NAMES \<longrightarrow> good_leaf bs s v" using Cons.prems(1) by simp
    from Cons.IH [OF rest ok, of "n0 + 1" tds0] obtain a where
      f: "fold_err scan_item es (Some (BoolT s d), n0 + 1, tds0)
              = Inr (a, n0 + 1 + length (filter (\<lambda>(k, v). k \<in> DONE_NAMES) es),
                     tds0 @ filter (\<lambda>(k, v). k \<notin> DONE_NAMES \<and> is_tensor_collection v) es)"
      and a: "acc_ok s a"
        "agg_any a \<longleftrightarrow> agg_any (Some (BoolT s d)) \<or> (\<exists>(k, v) \<in> set es. k \<in> DONE_NAMES \<and> node_any v)"
        "a = None \<longleftrightarrow> Some (BoolT s d) = None \<and> filter (\<lambda>(k, v). k \<in> DONE_NAMES) es = []"
      by blast
    have step: "scan_item e (a0, n0, tds0) = Inr (Some (BoolT s d), n0 + 1, tds0)"
      using True e o by (simp add: scan_item_def)
    show ?thesis
      using step f a an True e by (auto simp: agg_any_def)
  next
    case False
    have rest: "\<forall>(k, v) \<in> set es. k \<in> DONE_NAMES \<longrightarrow> good_leaf bs s v" using Cons.prems(1) by simp
    let ?tds1 = "if is_tensor_collection v then tds0 @ [(k, v)] else tds0"
    have step: "scan_item e (a0, n0, tds0) = Inr (a0, n0, ?tds1)"
      using False e by (simp add: scan_item_def)
    from Cons.IH [OF rest Cons.prems(2), of n0 ?tds1] obtain a where
      f: "fold_err scan_item es (a0, n0, ?tds1)
              = Inr (a, n0 + length (filter (\<lambda>(k, v). k \<in> DONE_NAMES) es),
                     ?tds1 @ filter (\<lambda>(k, v). k \<notin> DONE_NAMES \<and> is_tensor_collection v) es)"
      and a: "acc_ok s a"
        "agg_any a \<longleftrightarrow> agg_any a0 \<or> (\<exists>(k, v) \<in> set es. k \<in> DONE_NAMES \<and> node_any v)"
        "a = None \<longleftrightarrow> a0 = None \<and> filter (\<lambda>(k, v). k \<in> DONE_NAMES) es = []"
      by blast
    show ?thesis
      using step f a False e by auto
  qed
qed


definition spec_val :: "nat list \<Rightarrow> (string \<times> node) list \<Rightarrow> string \<Rightarrow> node" where
  "spec_val bs es k = (case lookup es k of None \<Rightarrow> Leaf (zeros_bool (bs @ [1])) | Some v \<Rightarrow> v)"

lemma scan_spec_leaf:
  assumes "good_leaf bs s (spec_val bs es k)" and "acc_ok s a0"
  shows "\<exists>d. scan_spec_item (TD bs es) (k, LeafSpec) (a0, n0, cs0) = Inr (Some (BoolT s d), n0 + 1, cs0)
     \<and> length d = prod_list s
     \<and> (t_any (BoolT s d) \<longleftrightarrow> agg_any a0 \<or> node_any (spec_val bs es k))"
proof -
  from or_into_good [OF assms] obtain d where
    o: "or_into a0 (spec_val bs es k) = Inr (BoolT s d)" and l: "length d = prod_list s"
    and an: "t_any (BoolT s d) \<longleftrightarrow> agg_any a0 \<or> node_any (spec_val bs es k)" by blast
  have g: "get_str (TD bs es) k = Inr (lookup es k)"
  proof (cases "lookup es k")
    case None
    then show ?thesis by simp
  next
    case (Some v)
    with assms(1) have "plain_entry v"
      by (cases v) (auto simp: spec_val_def good_leaf_def)
    with Some show ?thesis by (cases v) auto
  qed
  have "(case lookup es k of None \<Rightarrow> Leaf (zeros_bool (batch_size (TD bs es) @ [1])) | Some stop \<Rightarrow> stop)
      = spec_val bs es k"
    by (simp add: spec_val_def split: option.splits)
  then show ?thesis using o l an g by (simp add: scan_spec_item_def)
qed

lemma scan_spec_fold:
  assumes "\<forall>(k, sp) \<in> set items. sp = LeafSpec \<longrightarrow> good_leaf bs s (spec_val bs es k)" and "acc_ok s a0"
  shows "\<exists>a. fold_err (scan_spec_item (TD bs es)) items (a0, n0, cs0)
              = Inr (a, n0 + length (filter (\<lambda>(k, sp). sp = LeafSpec) items),
                     cs0 @ filter (\<lambda>(k, sp). sp \<noteq> LeafSpec) items)
           \<and> acc_ok s a
           \<and> (agg_any a \<longleftrightarrow> agg_any a0 \<or> (\<exists>(k, sp) \<in> set items. sp = LeafSpec \<and> node_any (spec_val bs es k)))
           \<and> (a = None \<longleftrightarrow> a0 = None \<and> filter (\<lambda>(k, sp). sp = LeafSpec) items = [])"
  using assms
proof (induction items arbitrary: a0 n0 cs0)
  case Nil
  then show ?case by simp
next
  case (Cons e items)
  obtain k sp where e: "e = (k, sp)" by (cases e)
  have rest: "\<forall>(k, sp) \<in> set items. sp = LeafSpec \<longrightarrow> good_leaf bs s (spec_val bs es k)"
    using Cons.prems(1) by simp
  show ?case
  proof (cases sp)
    case LeafSpec
    with Cons.prems e have g: "good_leaf bs s (spec_val bs es k)" by simp
    from scan_spec_leaf [OF g Cons.prems(2), of n0 cs0] obtain d where
      step: "scan_spec_item (TD bs es) (k, LeafSpec) (a0, n0, cs0) = Inr (Some (BoolT s d), n0 + 1, cs0)"
      and l: "length d = prod_list s"
      and an: "t_any (BoolT s d) \<longleftrightarrow> agg_any a0 \<or> node_any (spec_val bs es k)" by blast
    have ok: "acc_ok s (Some (BoolT s d))" using l by (simp add: acc_ok_def)
    from Cons.IH [OF rest ok, of "n0 + 1" cs0] obtain a where
      f: "fold_err (scan_spec_item (TD bs es)) items (Some (BoolT s d), n0 + 1, cs0)
              = Inr (a, n0 + 1 + length (filter (\<lambda>(k, sp). sp = LeafSpec) items),
                     cs0 @ filter (\<lambda>(k, sp). sp \<noteq> LeafSpec) items)"
      and a: "acc_ok s a"
        "agg_any a \<longleftrightarrow> agg_any (Some (BoolT s d))
            \<or> (\<exists>(k, sp) \<in> set items. sp = LeafSpec \<and> node_any (spec_val bs es k))"
        "a = None \<longleftrightarrow> Some (BoolT s d) = None \<and> filter (\<lambda>(k, sp). sp = LeafSpec) items = []"
      by blast
    show ?thesis using step f a an LeafSpec e by (auto simp: agg_any_def)
  next
    case (CompositeSpec sub)
    have step: "scan_spec_item (TD bs es) e (a0, n0, cs0) = Inr (a0, n0, cs0 @ [(k, sp)])"
      using CompositeSpec e by (simp add: scan_spec_item_def)
    from Cons.IH [OF rest Cons.prems(2), of n0 "cs0 @ [(k, sp)]"] obtain a where
      f: "fold_err (scan_spec_item (TD bs es)) items (a0, n0, cs0 @ [(k, sp)])
              = Inr (a, n0 + length (filter (\<lambda>(k, sp). sp = LeafSpec) items),
                     (cs0 @ [(k, sp)]) @ filter (\<lambda>(k, sp). sp \<noteq> LeafSpec) items)"
      and a: "acc_ok s a"
        "agg_any a \<longleftrightarrow> agg_any a0 \<or> (\<exists>(k, sp) \<in> set items. sp = LeafSpec \<and> node_any (spec_val bs es k))"
        "a = None \<longleftrightarrow> a0 = None \<and> filter (\<lambda>(k, sp). sp = LeafSpec) items = []"
      by blast
    show ?thesis using step f a CompositeSpec e by auto
  qed
qed

lemma t_any_squeeze: "t_any (squeeze_last t) = t_any t"
  by (cases t) auto

lemma write_aggregate_none:
  "write_aggregate None key cdk any_eot data ks = Inr (any_eot, data, ks)"
  by (simp add: write_aggregate_def)

lemma take_butlast_prefix:
  assumes "take (length bs) s = bs" and "length bs < length s"
  shows "take (length bs) (butlast s) = bs"
  using assms by (simp add: take_butlast)

lemma write_aggregate_some:
  assumes "length d = prod_list s" and "take (length bs) s = bs"
  shows "\<exists>es'. write_aggregate (Some (BoolT s d)) key cdk any_eot (TD bs es) ks
      = Inr (any_eot \<or> t_any (BoolT s d), TD bs es',
             ks @ (case key of None \<Rightarrow> [] | Some k \<Rightarrow> [cdk @ [k]]))
      \<and> (\<forall>p. has_path (TD bs es') p \<longrightarrow>
             has_path (TD bs es) p \<or> (\<exists>k. key = Some k \<and> p = [k]))
      \<and> (\<forall>k. key \<noteq> Some k \<longrightarrow> lookup es' k = lookup es k)"
proof (cases key)
  case None
  then show ?thesis by (auto simp: write_aggregate_def)
next
  case (Some k)
  let ?a' = "if ndim (BoolT s d) > length bs then squeeze_last (BoolT s d) else BoolT s d"
  have pre: "take (length bs) (shape ?a') = bs"
    using assms(2) by (auto simp: ndim_def take_butlast)
  have "td_set (TD bs es) k (Leaf ?a') = Inr (TD bs (upd k (Leaf ?a') es))"
    using pre by (simp add: td_set_def)
  moreover have "t_any ?a' = t_any (BoolT s d)"
    by (simp add: t_any_squeeze del: squeeze_last.simps)
  moreover have "\<forall>p. has_path (TD bs (upd k (Leaf ?a') es)) p \<longrightarrow> has_path (TD bs es) p \<or> p = [k]"
  proof (intro allI impI)
    fix p assume h: "has_path (TD bs (upd k (Leaf ?a') es)) p"
    show "has_path (TD bs es) p \<or> p = [k]"
    proof (cases p)
      case Nil
      then show ?thesis by simp
    next
      case (Cons k' p')
      then show ?thesis using h
        by (cases p') (auto simp: lookup_upd split: if_splits option.splits)
    qed
  qed
  ultimately show ?thesis using Some
    by (auto simp: write_aggregate_def Let_def lookup_upd simp del: squeeze_last.simps)
qed


definition walk_frame :: "string option \<Rightarrow> node \<Rightarrow> node \<Rightarrow> key list \<Rightarrow> bool" where
  "walk_frame key item item' rels =
     ((\<forall>p. has_path item' p \<longrightarrow> has_path item p \<or> p \<in> set rels)
      \<and> (\<forall>r \<in> set rels. r \<noteq> [] \<and> key = Some (last r)))"

definition child_ok :: "string option \<Rightarrow> key \<Rightarrow> done_spec option \<Rightarrow> node \<Rightarrow> bool" where
  "child_ok key cdk sp item =
     (\<forall>ks. \<exists>item' rels.
        inner_terminated_or_truncated item sp key cdk ks
          = Inr (some_governing_leaf_true sp item, item', ks @ map ((@) cdk) rels)
        \<and> walk_frame key item item' rels)"

lemma frame_step:
  assumes l: "lookup esc k = Some item"
    and f1: "walk_frame key item item' rels1"
    and f2: "walk_frame key (TD bs (upd k item' esc)) (TD bs es') rels2"
  shows "walk_frame key (TD bs esc) (TD bs es') (map ((#) k) rels1 @ rels2)"
  unfolding walk_frame_def
proof (intro conjI allI impI ballI)
  fix p assume h: "has_path (TD bs es') p"
  from f2 h have "has_path (TD bs (upd k item' esc)) p \<or> p \<in> set rels2"
    by (auto simp: walk_frame_def)
  then show "has_path (TD bs esc) p \<or> p \<in> set (map ((#) k) rels1 @ rels2)"
  proof
    assume a: "has_path (TD bs (upd k item' esc)) p"
    show ?thesis
    proof (cases p)
      case Nil
      then show ?thesis by simp
    next
      case (Cons k' p')
      show ?thesis
      proof (cases "k' = k")
        case True
        with a Cons have "has_path item' p'" by (simp add: lookup_upd)
        with f1 have "has_path item p' \<or> p' \<in> set rels1" by (auto simp: walk_frame_def)
        then show ?thesis using Cons True l by auto
      next
        case False
        with a Cons show ?thesis by (simp add: lookup_upd)
      qed
    qed
  next
    assume "p \<in> set rels2"
    then show ?thesis by simp
  qed
next
  fix r assume "r \<in> set (map ((#) k) rels1 @ rels2)"
  then show "r \<noteq> []" using f1 f2 by (auto simp: walk_frame_def)
next
  fix r assume "r \<in> set (map ((#) k) rels1 @ rels2)"
  then show "key = Some (last r)" using f1 f2 by (auto simp: walk_frame_def)
qed

lemma frame_refl: "walk_frame key d d []"
  by (simp add: walk_frame_def)

lemma loop_none:
  assumes "\<forall>(k, item) \<in> set tds. lookup esc k = Some item \<and> child_ok key (cdk @ [k]) None item"
    and "distinct (map fst tds)"
  shows "\<exists>es' rels.
     fold_err
       (\<lambda>(eot_key, item) (any_eot, data1, ks).
           case inner_terminated_or_truncated item None key (cdk @ [eot_key]) ks of
             Inl e \<Rightarrow> Inl e
           | Inr (any_eot_td, item', ks') \<Rightarrow>
               Inr (if found_leaf = 0 then any_eot \<or> any_eot_td else any_eot,
                    write_back (Some item) data1 eot_key item', ks'))
       tds (a0, TD bs esc, ksc)
     = Inr (if found_leaf = (0::nat)
            then a0 \<or> (\<exists>(k, item) \<in> set tds. some_governing_leaf_true None item) else a0,
            TD bs es', ksc @ map ((@) cdk) rels)
     \<and> walk_frame key (TD bs esc) (TD bs es') rels
     \<and> (\<forall>k. k \<notin> fst ` set tds \<longrightarrow> lookup es' k = lookup esc k)"
  using assms
proof (induction tds arbitrary: a0 esc ksc)
  case Nil
  show ?case using frame_refl [of key "TD bs esc"]
    by (intro exI [of _ esc] exI [of _ "[]"]) simp
next
  case (Cons e tds)
  obtain k item where e: "e = (k, item)" by (cases e)
  from Cons.prems e have l: "lookup esc k = Some item"
    and c: "child_ok key (cdk @ [k]) None item" by auto
  from c obtain item' rels1 where
    i: "inner_terminated_or_truncated item None key (cdk @ [k]) ksc
          = Inr (some_governing_leaf_true None item, item', ksc @ map ((@) (cdk @ [k])) rels1)"
    and f1: "walk_frame key item item' rels1"
    unfolding child_ok_def by blast
  let ?a1 = "if found_leaf = 0 then a0 \<or> some_governing_leaf_true None item else a0"
  let ?esc1 = "upd k item' esc"
  have wb: "write_back (Some item) (TD bs esc) k item' = TD bs ?esc1"
    by (simp add: write_back_def)
  have rest: "\<forall>(k', item2) \<in> set tds. lookup ?esc1 k' = Some item2 \<and> child_ok key (cdk @ [k']) None item2"
  proof (clarify)
    fix k' item2 assume m: "(k', item2) \<in> set tds"
    with Cons.prems(2) e have "k' \<noteq> k" by (auto simp: rev_image_eqI)
    with Cons.prems(1) m show "lookup ?esc1 k' = Some item2 \<and> child_ok key (cdk @ [k']) None item2"
      by (auto simp: lookup_upd)
  qed
  have d: "distinct (map fst tds)" using Cons.prems(2) by simp
  from Cons.IH [OF rest d, of ?a1 "ksc @ map ((@) (cdk @ [k])) rels1"] obtain es' rels2 where
    f: "fold_err
       (\<lambda>(eot_key, item) (any_eot, data1, ks).
           case inner_terminated_or_truncated item None key (cdk @ [eot_key]) ks of
             Inl e \<Rightarrow> Inl e
           | Inr (any_eot_td, item', ks') \<Rightarrow>
               Inr (if found_leaf = 0 then any_eot \<or> any_eot_td else any_eot,
                    write_back (Some item) data1 eot_key item', ks'))
       tds (?a1, TD bs ?esc1, ksc @ map ((@) (cdk @ [k])) rels1)
     = Inr (if found_leaf = 0
            then ?a1 \<or> (\<exists>(k, item) \<in> set tds. some_governing_leaf_true None item) else ?a1,
            TD bs es', (ksc @ map ((@) (cdk @ [k])) rels1) @ map ((@) cdk) rels2)"
    and f2: "walk_frame key (TD bs ?esc1) (TD bs es') rels2"
    and lk: "\<forall>k'. k' \<notin> fst ` set tds \<longrightarrow> lookup es' k' = lookup ?esc1 k'"
    by blast
  have ks_eq: "(ksc @ map ((@) (cdk @ [k])) rels1) @ map ((@) cdk) rels2
      = ksc @ map ((@) cdk) (map ((#) k) rels1 @ rels2)"
    by simp
  show ?case
    apply (intro exI [of _ es'] exI [of _ "map ((#) k) rels1 @ rels2"] conjI)
    subgoal using e i wb f ks_eq by (auto simp del: append_assoc map_append)
    subgoal using frame_step [OF l f1 f2] .
    subgoal using lk e by (auto simp: lookup_upd)
    done
qed


lemma loop_spec:
  assumes "\<forall>(k, sp) \<in> set cs. \<exists>sub. lookup esc k = Some sub \<and> plain_entry sub
              \<and> child_ok key (cdk @ [k]) (Some sp) sub"
    and "distinct (map fst cs)"
  shows "\<exists>es' rels.
     fold_err
       (\<lambda>(eot_key, item) (any_eot, data1, ks).
           case get data1 eot_key of
             Inl e \<Rightarrow> Inl e
           | Inr sub \<Rightarrow>
               (case inner_terminated_or_truncated sub (Some item) key (cdk @ [eot_key]) ks of
                  Inl e \<Rightarrow> Inl e
                | Inr (any_eot_td, sub', ks') \<Rightarrow>
                    Inr (if found_leaf = 0 then any_eot_td \<or> any_eot else any_eot,
                         write_back (Some sub) data1 eot_key sub', ks')))
       cs (a0, TD bs esc, ksc)
     = Inr (if found_leaf = (0::nat)
            then a0 \<or> (\<exists>(k, sp) \<in> set cs. \<exists>sub. lookup esc k = Some sub
                          \<and> some_governing_leaf_true (Some sp) sub) else a0,
            TD bs es', ksc @ map ((@) cdk) rels)
     \<and> walk_frame key (TD bs esc) (TD bs es') rels
     \<and> (\<forall>k. k \<notin> fst ` set cs \<longrightarrow> lookup es' k = lookup esc k)"
  using assms
proof (induction cs arbitrary: a0 esc ksc)
  case Nil
  show ?case using frame_refl [of key "TD bs esc"]
    by (intro exI [of _ esc] exI [of _ "[]"]) simp
next
  case (Cons e cs)
  obtain k sp where e: "e = (k, sp)" by (cases e)
  from Cons.prems e obtain sub where l: "lookup esc k = Some sub" and pl: "plain_entry sub"
    and c: "child_ok key (cdk @ [k]) (Some sp) sub" by auto
  have g: "get (TD bs esc) k = Inr sub" using l pl by (rule get_plain)
  from c obtain sub' rels1 where
    i: "inner_terminated_or_truncated sub (Some sp) key (cdk @ [k]) ksc
          = Inr (some_governing_leaf_true (Some sp) sub, sub', ksc @ map ((@) (cdk @ [k])) rels1)"
    and f1: "walk_frame key sub sub' rels1"
    unfolding child_ok_def by blast
  let ?a1 = "if found_leaf = 0 then some_governing_leaf_true (Some sp) sub \<or> a0 else a0"
  let ?esc1 = "upd k sub' esc"
  have wb: "write_back (Some sub) (TD bs esc) k sub' = TD bs ?esc1"
    by (simp add: write_back_def)
  have other: "\<And>k'. (k', sp') \<in> set cs \<Longrightarrow> k' \<noteq> k" for sp'
    using Cons.prems(2) e by (auto simp: rev_image_eqI)
  have rest: "\<forall>(k', sp') \<in> set cs. \<exists>sub. lookup ?esc1 k' = Some sub \<and> plain_entry sub
              \<and> child_ok key (cdk @ [k']) (Some sp') sub"
    using Cons.prems(1) other by (auto simp: lookup_upd)
  have d: "distinct (map fst cs)" using Cons.prems(2) by simp
  from Cons.IH [OF rest d, of ?a1 "ksc @ map ((@) (cdk @ [k])) rels1"] obtain es' rels2 where
    f: "fold_err
       (\<lambda>(eot_key, item) (any_eot, data1, ks).
           case get data1 eot_key of
             Inl e \<Rightarrow> Inl e
           | Inr sub \<Rightarrow>
               (case inner_terminated_or_truncated sub (Some item) key (cdk @ [eot_key]) ks of
                  Inl e \<Rightarrow> Inl e
                | Inr (any_eot_td, sub', ks') \<Rightarrow>
                    Inr (if found_leaf = 0 then any_eot_td \<or> any_eot else any_eot,
                         write_back (Some sub) data1 eot_key sub', ks')))
       cs (?a1, TD bs ?esc1, ksc @ map ((@) (cdk @ [k])) rels1)
     = Inr (if found_leaf = 0
            then ?a1 \<or> (\<exists>(k, sp) \<in> set cs. \<exists>sub. lookup ?esc1 k = Some sub
                          \<and> some_governing_leaf_true (Some sp) sub) else ?a1,
            TD bs es', (ksc @ map ((@) (cdk @ [k])) rels1) @ map ((@) cdk) rels2)"
    and f2: "walk_frame key (TD bs ?esc1) (TD bs es') rels2"
    and lk: "\<forall>k'. k' \<notin> fst ` set cs \<longrightarrow> lookup es' k' = lookup ?esc1 k'"
    by blast
  have ks_eq: "(ksc @ map ((@) (cdk @ [k])) rels1) @ map ((@) cdk) rels2
      = ksc @ map ((@) cdk) (map ((#) k) rels1 @ rels2)"
    by simp
  have same: "(\<exists>(k, sp) \<in> set cs. \<exists>sub. lookup ?esc1 k = Some sub \<and> some_governing_leaf_true (Some sp) sub)
     \<longleftrightarrow> (\<exists>(k, sp) \<in> set cs. \<exists>sub. lookup esc k = Some sub \<and> some_governing_leaf_true (Some sp) sub)"
  proof (rule bex_cong [OF refl])
    fix x assume x: "x \<in> set cs"
    obtain k' sp' where xx: "x = (k', sp')" by (cases x)
    with x other have "lookup ?esc1 k' = lookup esc k'" by (simp add: lookup_upd)
    with xx show "(case x of (k, sp) \<Rightarrow> \<exists>sub. lookup ?esc1 k = Some sub \<and> some_governing_leaf_true (Some sp) sub)
      = (case x of (k, sp) \<Rightarrow> \<exists>sub. lookup esc k = Some sub \<and> some_governing_leaf_true (Some sp) sub)"
      by simp
  qed
  show ?case
    apply (intro exI [of _ es'] exI [of _ "map ((#) k) rels1 @ rels2"] conjI)
    subgoal using e i g l wb f ks_eq same by (auto simp del: append_assoc map_append)
    subgoal using frame_step [OF l f1 f2] .
    subgoal using lk e by (auto simp: lookup_upd)
    done
qed

lemma governing_unfold:
  assumes "distinct (map fst (sub_nodes spec data))"
  shows "some_governing_leaf_true spec data \<longleftrightarrow>
     (if direct_leaves spec data \<noteq> [] then (\<exists>v \<in> set (direct_leaves spec data). node_any v)
      else (\<exists>(k, sp', sub) \<in> set (sub_nodes spec data). some_governing_leaf_true sp' sub))"
proof (cases "direct_leaves spec data = []")
  case False
  have "some_governing_leaf_true spec data \<longleftrightarrow> (\<exists>v \<in> set (direct_leaves spec data). node_any v)"
  proof
    assume "some_governing_leaf_true spec data"
    then obtain q where q: "\<exists>v \<in> set (direct_at spec data q). node_any v"
      and u: "\<forall>q' r. q = q' @ r \<and> r \<noteq> [] \<longrightarrow> direct_at spec data q' = []"
      unfolding some_governing_leaf_true_def by blast
    have "q = []"
    proof (rule ccontr)
      assume "q \<noteq> []"
      with u [rule_format, of "[]" q] have "direct_at spec data [] = []" by simp
      with False show False by simp
    qed
    with q show "\<exists>v \<in> set (direct_leaves spec data). node_any v" by simp
  next
    assume "\<exists>v \<in> set (direct_leaves spec data). node_any v"
    then show "some_governing_leaf_true spec data"
      unfolding some_governing_leaf_true_def by (intro exI [of _ "[]"]) simp
  qed
  with False show ?thesis by simp
next
  case True
  have "some_governing_leaf_true spec data \<longleftrightarrow>
      (\<exists>(k, sp', sub) \<in> set (sub_nodes spec data). some_governing_leaf_true sp' sub)"
  proof
    assume "some_governing_leaf_true spec data"
    then obtain q where q: "\<exists>v \<in> set (direct_at spec data q). node_any v"
      and u: "\<forall>q' r. q = q' @ r \<and> r \<noteq> [] \<longrightarrow> direct_at spec data q' = []"
      unfolding some_governing_leaf_true_def by blast
    from q True obtain k q2 where qq: "q = k # q2" by (cases q) auto
    from q qq obtain sp' sub where l: "lookup (sub_nodes spec data) k = Some (sp', sub)"
      by (cases "lookup (sub_nodes spec data) k") auto
    have m: "(k, sp', sub) \<in> set (sub_nodes spec data)" using l by (rule lookup_mem)
    have "some_governing_leaf_true sp' sub"
      unfolding some_governing_leaf_true_def
    proof (intro exI [of _ q2] conjI allI impI)
      show "\<exists>v \<in> set (direct_at sp' sub q2). node_any v" using q qq l by simp
    next
      fix q' r assume "q2 = q' @ r \<and> r \<noteq> []"
      with u [rule_format, of "k # q'" r] qq l show "direct_at sp' sub q' = []" by simp
    qed
    with m show "\<exists>(k, sp', sub) \<in> set (sub_nodes spec data). some_governing_leaf_true sp' sub"
      by blast
  next
    assume "\<exists>(k, sp', sub) \<in> set (sub_nodes spec data). some_governing_leaf_true sp' sub"
    then obtain k sp' sub where m: "(k, sp', sub) \<in> set (sub_nodes spec data)"
      and g: "some_governing_leaf_true sp' sub" by blast
    have l: "lookup (sub_nodes spec data) k = Some (sp', sub)"
      using assms m by (rule lookup_distinct)
    from g obtain q2 where q2: "\<exists>v \<in> set (direct_at sp' sub q2). node_any v"
      and u2: "\<forall>q' r. q2 = q' @ r \<and> r \<noteq> [] \<longrightarrow> direct_at sp' sub q' = []"
      unfolding some_governing_leaf_true_def by blast
    show "some_governing_leaf_true spec data"
      unfolding some_governing_leaf_true_def
    proof (intro exI [of _ "k # q2"] conjI allI impI)
      show "\<exists>v \<in> set (direct_at spec data (k # q2)). node_any v" using q2 l by simp
    next
      fix q' r assume a: "k # q2 = q' @ r \<and> r \<noteq> []"
      show "direct_at spec data q' = []"
      proof (cases q')
        case Nil
        then show ?thesis using True by simp
      next
        case (Cons k' q2')
        with a have "k' = k" and "q2 = q2' @ r" by auto
        with u2 a Cons l show ?thesis by simp
      qed
    qed
  qed
  with True show ?thesis by simp
qed


lemma finish_walk:
  assumes "acc_ok s a" and "a \<noteq> None \<longrightarrow> take (length bs) s = bs"
    and "walk_frame key (TD bs es) (TD bs es') rels"
  shows "\<exists>es'' rels'.
     write_aggregate a key cdk any_eot (TD bs es') (ks @ map ((@) cdk) rels)
       = Inr (any_eot \<or> agg_any a, TD bs es'', ks @ map ((@) cdk) rels')
     \<and> walk_frame key (TD bs es) (TD bs es'') rels'"
proof (cases a)
  case None
  then show ?thesis using assms(3)
    by (intro exI [of _ es'] exI [of _ rels]) (simp add: write_aggregate_none agg_any_def)
next
  case (Some t)
  with assms obtain d where t: "t = BoolT s d" and l: "length d = prod_list s"
    and pre: "take (length bs) s = bs" by (auto simp: acc_ok_def)
  from write_aggregate_some [OF l pre, of key cdk any_eot es' "ks @ map ((@) cdk) rels"]
  obtain es'' where
    w: "write_aggregate (Some (BoolT s d)) key cdk any_eot (TD bs es') (ks @ map ((@) cdk) rels)
      = Inr (any_eot \<or> t_any (BoolT s d), TD bs es'',
             (ks @ map ((@) cdk) rels) @ (case key of None \<Rightarrow> [] | Some k \<Rightarrow> [cdk @ [k]]))"
    and hp: "\<forall>p. has_path (TD bs es'') p \<longrightarrow>
             has_path (TD bs es') p \<or> (\<exists>k. key = Some k \<and> p = [k])"
    by blast
  let ?rels' = "rels @ (case key of None \<Rightarrow> [] | Some k \<Rightarrow> [[k]])"
  have eq: "(ks @ map ((@) cdk) rels) @ (case key of None \<Rightarrow> [] | Some k \<Rightarrow> [cdk @ [k]])
      = ks @ map ((@) cdk) ?rels'"
    by (cases key) simp_all
  have fr: "walk_frame key (TD bs es) (TD bs es'') ?rels'"
    unfolding walk_frame_def
  proof (intro conjI allI impI ballI)
    fix p assume "has_path (TD bs es'') p"
    with hp have "has_path (TD bs es') p \<or> (\<exists>k. key = Some k \<and> p = [k])" by blast
    then show "has_path (TD bs es) p \<or> p \<in> set ?rels'"
      using assms(3) by (auto simp: walk_frame_def)
  next
    fix r assume "r \<in> set ?rels'"
    then show "r \<noteq> []" using assms(3) by (cases key) (auto simp: walk_frame_def)
  next
    fix r assume "r \<in> set ?rels'"
    then show "key = Some (last r)" using assms(3) by (cases key) (auto simp: walk_frame_def)
  qed
  show ?thesis
    using w eq fr Some t by (intro exI [of _ es''] exI [of _ ?rels']) (simp add: agg_any_def)
qed

lemma sub_nodes_distinct:
  assumes "distinct (map fst es)" and "spec_fits spec es"
  shows "distinct (map fst (sub_nodes spec (TD bs es)))"
proof (cases spec)
  case None
  have "(fst \<circ> (\<lambda>(k, v). (k, None :: done_spec option, v :: node))) = fst"
    by (auto simp: fun_eq_iff)
  then have "map fst (sub_nodes None (TD bs es))
      = map fst (filter (\<lambda>(k, v). k \<notin> DONE_NAMES \<and> is_tensor_collection v) es)"
    by simp
  then show ?thesis using None assms(1) by (simp only: distinct_map_filter)
next
  case (Some sp)
  show ?thesis
  proof (cases sp)
    case LeafSpec
    then show ?thesis using Some by simp
  next
    case (CompositeSpec items)
    have "distinct (map fst items) \<Longrightarrow> distinct (map fst (spec_subs es items))"
      by (induction es items rule: spec_subs.induct)
        (auto split: option.splits dest!: spec_subs_mem simp: rev_image_eqI)
    then show ?thesis using Some CompositeSpec assms(2) by simp
  qed
qed


lemma spec_subs_intro:
  "(k, sp) \<in> set items \<Longrightarrow> sp \<noteq> LeafSpec \<Longrightarrow> lookup es k = Some sub \<Longrightarrow>
   (k, Some sp, sub) \<in> set (spec_subs es items)"
  by (induction es items rule: spec_subs.induct) (auto split: option.splits)

lemma direct_leaves_spec:
  "direct_leaves (Some (CompositeSpec items)) (TD bs es)
     = map (\<lambda>(k, s). spec_val bs es k) (filter (\<lambda>(k, s). s = LeafSpec) items)"
  by (simp add: spec_val_def)

lemma inner_walk: "wf_walk spec data \<Longrightarrow> child_ok key cdk spec data"
proof (induction spec data arbitrary: cdk rule: wf_walk.induct)
  case (1 spec bs es)
  let ?data = "TD bs es"
  from "1.prems" have dist: "distinct (map fst es)"
    and plain: "\<forall>(k, v) \<in> set es. plain_entry v"
    and fits: "spec_fits spec es"
    and good: "case direct_leaves spec ?data of [] \<Rightarrow> True
          | v # vs \<Rightarrow> \<forall>u \<in> set (v # vs). good_leaf bs (batch_size v) u"
    and subs: "\<forall>(k, sp', sub) \<in> set (sub_nodes spec ?data). wf_walk sp' sub"
    by simp_all
  have IH: "child_ok key cdk' sp' sub" if "(k, sp', sub) \<in> set (sub_nodes spec ?data)" for k sp' sub cdk'
    using "1.IH" [OF that refl refl] that subs by auto
  define s where "s = (case direct_leaves spec ?data of [] \<Rightarrow> [] | v # vs \<Rightarrow> batch_size v)"
  have allgood: "\<forall>v \<in> set (direct_leaves spec ?data). good_leaf bs s v"
    using good unfolding s_def by (cases "direct_leaves spec ?data") auto
  have pre: "direct_leaves spec ?data \<noteq> [] \<Longrightarrow> take (length bs) s = bs"
    using allgood by (cases "direct_leaves spec ?data") (auto simp: good_leaf_def split: node.splits tensor.splits)
  have dsub: "distinct (map fst (sub_nodes spec ?data))"
    using dist fits by (rule sub_nodes_distinct)
  note gu = governing_unfold [OF dsub]
  show ?case unfolding child_ok_def
  proof (intro allI)
    fix ks
    show "\<exists>item' rels. inner_terminated_or_truncated ?data spec key cdk ks
          = Inr (some_governing_leaf_true spec ?data, item', ks @ map ((@) cdk) rels)
        \<and> walk_frame key ?data item' rels"
    proof (cases spec)
      case None
      let ?tds = "filter (\<lambda>(k, v). k \<notin> DONE_NAMES \<and> is_tensor_collection v) es"
      let ?n = "length (filter (\<lambda>(k, v). k \<in> DONE_NAMES) es)"
      have dl: "direct_leaves spec ?data = map snd (filter (\<lambda>(k, v). k \<in> DONE_NAMES) es)"
        using None by simp
      have sn: "sub_nodes spec ?data = map (\<lambda>(k, v). (k, None, v)) ?tds"
        using None by simp
      have its: "td_items ?data = Inr es" using dist plain by (rule td_items_plain)
      have g1: "\<forall>(k, v) \<in> set es. k \<in> DONE_NAMES \<longrightarrow> good_leaf bs s v"
        using allgood dl by force
      from scan_item_fold [OF g1, of None 0 "[]"] obtain a where
        sc: "fold_err scan_item es (None, 0, []) = Inr (a, ?n, ?tds)"
        and ok: "acc_ok s a"
        and an: "agg_any a \<longleftrightarrow> (\<exists>(k, v) \<in> set es. k \<in> DONE_NAMES \<and> node_any v)"
        and none: "a = None \<longleftrightarrow> filter (\<lambda>(k, v). k \<in> DONE_NAMES) es = []"
        by (auto simp: acc_ok_def agg_any_def)
      have ch: "\<forall>(k, item) \<in> set ?tds. lookup es k = Some item \<and> child_ok key (cdk @ [k]) None item"
      proof (clarify)
        fix k item assume m: "(k, item) \<in> set ?tds"
        then have "(k, None, item) \<in> set (sub_nodes spec ?data)" unfolding sn by force
        from IH [OF this] have "child_ok key (cdk @ [k]) None item" .
        moreover have "lookup es k = Some item" using dist m by (auto intro: lookup_distinct)
        ultimately show "lookup es k = Some item \<and> child_ok key (cdk @ [k]) None item" by simp
      qed
      have dt: "distinct (map fst ?tds)" using dist by (simp only: distinct_map_filter)
      from loop_none [OF ch dt, of ?n False bs ks] obtain es' rels where
        lp: "fold_err
           (\<lambda>(eot_key, item) (any_eot, data1, ks).
               case inner_terminated_or_truncated item None key (cdk @ [eot_key]) ks of
                 Inl e \<Rightarrow> Inl e
               | Inr (any_eot_td, item', ks') \<Rightarrow>
                   Inr (if ?n = 0 then any_eot \<or> any_eot_td else any_eot,
                        write_back (Some item) data1 eot_key item', ks'))
           ?tds (False, ?data, ks)
         = Inr (if ?n = 0 then False \<or> (\<exists>(k, item) \<in> set ?tds. some_governing_leaf_true None item)
                else False,
                TD bs es', ks @ map ((@) cdk) rels)"
        and fr: "walk_frame key ?data (TD bs es') rels"
        by blast
      let ?any = "if ?n = 0 then False \<or> (\<exists>(k, item) \<in> set ?tds. some_governing_leaf_true None item)
                else False"
      have pre': "a \<noteq> None \<longrightarrow> take (length bs) s = bs" using none pre dl by auto
      from finish_walk [OF ok pre' fr, of cdk ?any ks] obtain es'' rels' where
        w: "write_aggregate a key cdk ?any (TD bs es') (ks @ map ((@) cdk) rels)
             = Inr (?any \<or> agg_any a, TD bs es'', ks @ map ((@) cdk) rels')"
        and fr': "walk_frame key ?data (TD bs es'') rels'"
        by blast
      have val: "(?any \<or> agg_any a) = some_governing_leaf_true spec ?data"
      proof (cases "filter (\<lambda>(k, v). k \<in> DONE_NAMES) es = []")
        case True
        then have "a = None" using none by simp
        then have "agg_any a = False" by (simp add: agg_any_def)
        moreover have "(\<exists>(k, item) \<in> set ?tds. some_governing_leaf_true None item)
           \<longleftrightarrow> (\<exists>(k, sp', sub) \<in> set (sub_nodes spec ?data). some_governing_leaf_true sp' sub)"
          unfolding sn by force
        ultimately show ?thesis using True gu dl by simp
      next
        case False
        have "(\<exists>(k, v) \<in> set es. k \<in> DONE_NAMES \<and> node_any v)
           \<longleftrightarrow> (\<exists>v \<in> set (direct_leaves spec ?data). node_any v)"
          unfolding dl by force
        then show ?thesis using False gu dl an by simp
      qed
      have "inner_terminated_or_truncated ?data spec key cdk ks
          = Inr (some_governing_leaf_true spec ?data, TD bs es'', ks @ map ((@) cdk) rels')"
        using None its sc lp w val
        by (subst inner_terminated_or_truncated.simps) simp
      with fr' show ?thesis by blast
    next
      case (Some sp)
      with fits obtain items where sp: "sp = CompositeSpec items" by (cases sp) auto
      from fits Some sp have ditems: "distinct (map fst items)"
        and present: "\<forall>(k, s) \<in> set items. s \<noteq> LeafSpec \<longrightarrow>
            (case lookup es k of Some (TD bs' es') \<Rightarrow> True | _ \<Rightarrow> False)"
        by simp_all
      let ?cs = "filter (\<lambda>(k, sp). sp \<noteq> LeafSpec) items"
      let ?n = "length (filter (\<lambda>(k, sp). sp = LeafSpec) items)"
      have dl: "direct_leaves spec ?data
          = map (\<lambda>(k, s). spec_val bs es k) (filter (\<lambda>(k, s). s = LeafSpec) items)"
        using Some sp by (simp only: direct_leaves_spec)
      have sn: "sub_nodes spec ?data = spec_subs es items" using Some sp by simp
      have g1: "\<forall>(k, sp) \<in> set items. sp = LeafSpec \<longrightarrow> good_leaf bs s (spec_val bs es k)"
        using allgood dl by force
      from scan_spec_fold [OF g1, of None 0 "[]"] obtain a where
        sc: "fold_err (scan_spec_item ?data) items (None, 0, []) = Inr (a, ?n, ?cs)"
        and ok: "acc_ok s a"
        and an: "agg_any a \<longleftrightarrow> (\<exists>(k, sp) \<in> set items. sp = LeafSpec \<and> node_any (spec_val bs es k))"
        and none: "a = None \<longleftrightarrow> filter (\<lambda>(k, sp). sp = LeafSpec) items = []"
        by (auto simp: acc_ok_def agg_any_def)
      have ch: "\<forall>(k, sp) \<in> set ?cs. \<exists>sub. lookup es k = Some sub \<and> plain_entry sub
              \<and> child_ok key (cdk @ [k]) (Some sp) sub"
      proof (clarify)
        fix k sp0 assume m: "(k, sp0) \<in> set ?cs"
        then have mi: "(k, sp0) \<in> set items" and nl: "sp0 \<noteq> LeafSpec" by auto
        with present have c: "case lookup es k of Some (TD bs' es') \<Rightarrow> True | _ \<Rightarrow> False"
          by auto
        obtain bs' es' where l: "lookup es k = Some (TD bs' es')"
        proof (cases "lookup es k")
          case None
          with c show ?thesis by simp
        next
          case (Some v)
          with c that show ?thesis by (cases v) auto
        qed
        from spec_subs_intro [OF mi nl l] have "(k, Some sp0, TD bs' es') \<in> set (sub_nodes spec ?data)"
          unfolding sn .
        from IH [OF this] have "child_ok key (cdk @ [k]) (Some sp0) (TD bs' es')" .
        with l show "\<exists>sub. lookup es k = Some sub \<and> plain_entry sub
              \<and> child_ok key (cdk @ [k]) (Some sp0) sub" by simp
      qed
      have dc: "distinct (map fst ?cs)" using ditems by (simp only: distinct_map_filter)
      from loop_spec [OF ch dc, of ?n False bs ks] obtain es' rels where
        lp: "fold_err
           (\<lambda>(eot_key, item) (any_eot, data1, ks).
               case get data1 eot_key of
                 Inl e \<Rightarrow> Inl e
               | Inr sub \<Rightarrow>
                   (case inner_terminated_or_truncated sub (Some item) key (cdk @ [eot_key]) ks of
                      Inl e \<Rightarrow> Inl e
                    | Inr (any_eot_td, sub', ks') \<Rightarrow>
                        Inr (if ?n = 0 then any_eot_td \<or> any_eot else any_eot,
                             write_back (Some sub) data1 eot_key sub', ks')))
           ?cs (False, ?data, ks)
         = Inr (if ?n = 0
                then False \<or> (\<exists>(k, sp) \<in> set ?cs. \<exists>sub. lookup es k = Some sub
                          \<and> some_governing_leaf_true (Some sp) sub) else False,
                TD bs es', ks @ map ((@) cdk) rels)"
        and fr: "walk_frame key ?data (TD bs es') rels"
        by blast
      let ?any = "if ?n = 0
                then False \<or> (\<exists>(k, sp) \<in> set ?cs. \<exists>sub. lookup es k = Some sub
                          \<and> some_governing_leaf_true (Some sp) sub) else False"
      have pre': "a \<noteq> None \<longrightarrow> take (length bs) s = bs" using none pre dl by auto
      from finish_walk [OF ok pre' fr, of cdk ?any ks] obtain es'' rels' where
        w: "write_aggregate a key cdk ?any (TD bs es') (ks @ map ((@) cdk) rels)
             = Inr (?any \<or> agg_any a, TD bs es'', ks @ map ((@) cdk) rels')"
        and fr': "walk_frame key ?data (TD bs es'') rels'"
        by blast
      have val: "(?any \<or> agg_any a) = some_governing_leaf_true spec ?data"
      proof (cases "filter (\<lambda>(k, sp). sp = LeafSpec) items = []")
        case True
        then have "a = None" using none by simp
        then have "agg_any a = False" by (simp add: agg_any_def)
        moreover have "(\<exists>(k, sp) \<in> set ?cs. \<exists>sub. lookup es k = Some sub
                          \<and> some_governing_leaf_true (Some sp) sub)
           \<longleftrightarrow> (\<exists>(k, sp', sub) \<in> set (sub_nodes spec ?data). some_governing_leaf_true sp' sub)"
          unfolding sn
        proof
          assume "\<exists>(k, sp) \<in> set ?cs. \<exists>sub. lookup es k = Some sub
                          \<and> some_governing_leaf_true (Some sp) sub"
          then obtain k sp0 sub where "(k, sp0) \<in> set items" "sp0 \<noteq> LeafSpec"
            "lookup es k = Some sub" "some_governing_leaf_true (Some sp0) sub" by auto
          then show "\<exists>(k, sp', sub) \<in> set (spec_subs es items). some_governing_leaf_true sp' sub"
            using spec_subs_intro [of k sp0 items es sub] by blast
        next
          assume "\<exists>(k, sp', sub) \<in> set (spec_subs es items). some_governing_leaf_true sp' sub"
          then obtain k sp' sub where m: "(k, sp', sub) \<in> set (spec_subs es items)"
            and g: "some_governing_leaf_true sp' sub" by blast
          from spec_subs_mem [OF m] obtain s' where "sp' = Some s'" "s' \<noteq> LeafSpec"
            "(k, s') \<in> set items" "lookup es k = Some sub" by blast
          with g show "\<exists>(k, sp) \<in> set ?cs. \<exists>sub. lookup es k = Some sub
                          \<and> some_governing_leaf_true (Some sp) sub" by force
        qed
        ultimately show ?thesis using True gu dl by simp
      next
        case False
        have "(\<exists>(k, sp) \<in> set items. sp = LeafSpec \<and> node_any (spec_val bs es k))
           \<longleftrightarrow> (\<exists>v \<in> set (direct_leaves spec ?data). node_any v)"
          unfolding dl by force
        then show ?thesis using False gu dl an by simp
      qed
      have "inner_terminated_or_truncated ?data spec key cdk ks
          = Inr (some_governing_leaf_true spec ?data, TD bs es'', ks @ map ((@) cdk) rels')"
        using Some sp sc lp w val
        by (subst inner_terminated_or_truncated.simps) simp
      with fr' show ?thesis by blast
    qed
  qed
qed (simp_all)

section \<open>The aggregator's answer and its markers\<close>

lemma lookup_delete: "lookup (delete k es) k' = (if k' = k then None else lookup es k')"
  by (induction es) auto

lemma del_path_no_new: "has_path (del_path d q) p \<Longrightarrow> has_path d p"
proof (induction d q arbitrary: p rule: del_path.induct)
  case (1 bs es k)
  then show ?case by (cases p) (auto simp: lookup_delete split: if_splits option.splits)
next
  case (2 bs es k k' ks)
  show ?case
  proof (cases p)
    case Nil
    then show ?thesis by simp
  next
    case (Cons a p')
    show ?thesis
    proof (cases "lookup es k")
      case None
      with "2.prems" show ?thesis by simp
    next
      case (Some v)
      with "2.prems" "2.IH" [OF Some, of p'] Cons show ?thesis
        by (auto simp: lookup_upd split: if_splits option.splits)
    qed
  qed
next
  case (3 xs k ks)
  then show ?case by (cases p) auto
qed auto

lemma has_path_leaf [simp]: "has_path (Leaf t) p \<longleftrightarrow> p = []"
  by (cases p) auto

lemma has_path_failing [simp]: "has_path (Failing e) p \<longleftrightarrow> p = []"
  by (cases p) auto

lemma has_path_obj [simp]: "has_path (Obj v) p \<longleftrightarrow> p = []"
  by (cases p) auto

lemma del_path_gone: "q \<noteq> [] \<Longrightarrow> \<not> has_path (del_path d q) q"
proof (induction d q rule: del_path.induct)
  case (1 bs es k)
  then show ?case by (simp add: lookup_delete)
next
  case (2 bs es k k' ks)
  then show ?case by (cases "lookup es k") (auto simp: lookup_upd)
next
  case (3 xs k ks)
  then show ?case by auto
qed auto

lemma exclude_no_new: "has_path (exclude d ks) p \<Longrightarrow> has_path d p"
  unfolding exclude_def
  by (induction ks arbitrary: d) (auto dest: del_path_no_new)

lemma exclude_gone: "q \<in> set ks \<Longrightarrow> q \<noteq> [] \<Longrightarrow> \<not> has_path (exclude d ks) q"
  unfolding exclude_def
proof (induction ks arbitrary: d)
  case Nil
  then show ?case by simp
next
  case (Cons a ks)
  show ?case
  proof (cases "q \<in> set ks")
    case True
    with Cons show ?thesis by simp
  next
    case False
    with Cons.prems have "a = q" by simp
    have "has_path (foldl del_path (del_path d q) ks) q \<Longrightarrow> has_path (del_path d q) q"
      using exclude_no_new [of "del_path d q" ks q] by (simp add: exclude_def)
    with del_path_gone [OF Cons.prems(2), of d] \<open>a = q\<close> show ?thesis by auto
  qed
qed


lemma walk_result:
  assumes "wf_walk spec data"
  shows "\<exists>data' written.
     inner_terminated_or_truncated data spec key [] [] = Inr (some_governing_leaf_true spec data, data', written)
     \<and> (\<forall>p. has_path data' p \<longrightarrow> has_path data p \<or> p \<in> set written)
     \<and> (\<forall>p \<in> set written. p \<noteq> [] \<and> key = Some (last p))"
proof -
  from inner_walk [OF assms, of key "[]"] obtain data' rels where
    "inner_terminated_or_truncated data spec key [] []
        = Inr (some_governing_leaf_true spec data, data', [] @ map ((@) []) rels)"
    and "walk_frame key data data' rels"
    unfolding child_ok_def by blast
  then show ?thesis by (auto simp: walk_frame_def)
qed

lemma governing_is_leaf: "some_governing_leaf_true spec data \<Longrightarrow> some_leaf_true spec data"
  unfolding some_governing_leaf_true_def some_leaf_true_def by blast

text \<open>
  Claim C2, as stated: the aggregator returns true if and only if some done, terminated
  or truncated leaf, anywhere in the tree, is true. It fails, with and without a spec,
  on a batch whose root holds \<^verbatim>\<open>done = [False]\<close> and whose sub-batch \<^verbatim>\<open>nested\<close> holds
  \<^verbatim>\<open>done = [True]\<close>: the root has a leaf of its own, so what the walk finds below it is
  not counted, and the call returns false.
\<close>

theorem nested_true_leaf_is_not_counted:
  "wf_walk None
     (TD [] [(''done'', Leaf (BoolT [1] [False])),
             (''nested'', TD [] [(''done'', Leaf (BoolT [1] [True]))])])
   \<and> direct_at None
       (TD [] [(''done'', Leaf (BoolT [1] [False])),
               (''nested'', TD [] [(''done'', Leaf (BoolT [1] [True]))])])
       [''nested'']
     = [Leaf (BoolT [1] [True])]
   \<and> some_leaf_true None
       (TD [] [(''done'', Leaf (BoolT [1] [False])),
               (''nested'', TD [] [(''done'', Leaf (BoolT [1] [True]))])])
   \<and> u_terminated_or_truncated
       (TD [] [(''done'', Leaf (BoolT [1] [False])),
               (''nested'', TD [] [(''done'', Leaf (BoolT [1] [True]))])])
       None (Some ''_reset'') False
     = Inr (False,
            TD [] [(''done'', Leaf (BoolT [1] [False])),
                   (''nested'', TD [] [(''done'', Leaf (BoolT [1] [True]))])])
   \<and> some_leaf_true
       (Some (CompositeSpec [(''done'', LeafSpec), (''nested'', CompositeSpec [(''done'', LeafSpec)])]))
       (TD [] [(''done'', Leaf (BoolT [1] [False])),
               (''nested'', TD [] [(''done'', Leaf (BoolT [1] [True]))])])
   \<and> u_terminated_or_truncated
       (TD [] [(''done'', Leaf (BoolT [1] [False])),
               (''nested'', TD [] [(''done'', Leaf (BoolT [1] [True]))])])
       (Some (CompositeSpec [(''done'', LeafSpec), (''nested'', CompositeSpec [(''done'', LeafSpec)])]))
       (Some ''_reset'') False
     = Inr (False,
            TD [] [(''done'', Leaf (BoolT [1] [False])),
                   (''nested'', TD [] [(''done'', Leaf (BoolT [1] [True]))])])"
proof -
  let ?d = "TD [] [(''done'', Leaf (BoolT [1] [False])),
             (''nested'', TD [] [(''done'', Leaf (BoolT [1] [True]))])]"
  let ?sp = "Some (CompositeSpec [(''done'', LeafSpec), (''nested'', CompositeSpec [(''done'', LeafSpec)])])"
  have wf: "wf_walk None ?d" by (simp add: good_leaf_def DONE_NAMES_def)
  have da: "direct_at None ?d [''nested''] = [Leaf (BoolT [1] [True])]"
    by (simp add: DONE_NAMES_def)
  have da2: "direct_at ?sp ?d [''nested''] = [Leaf (BoolT [1] [True])]"
    by (simp add: DONE_NAMES_def)
  have s1: "some_leaf_true None ?d"
    unfolding some_leaf_true_def using da by (intro exI [of _ "[''nested'']"]) simp
  have s2: "some_leaf_true ?sp ?d"
    unfolding some_leaf_true_def using da2 by (intro exI [of _ "[''nested'']"]) simp
  have r1: "u_terminated_or_truncated ?d None (Some ''_reset'') False = Inr (False, ?d)"
    by (simp add: u_terminated_or_truncated_def inner_terminated_or_truncated.simps td_items_def
        get_def scan_item_def or_into_def DONE_NAMES_def write_aggregate_def td_set_def
        write_back_def ndim_def exclude_def)
  have r2: "u_terminated_or_truncated ?d ?sp (Some ''_reset'') False = Inr (False, ?d)"
    by (simp add: u_terminated_or_truncated_def inner_terminated_or_truncated.simps
        get_def scan_spec_item_def or_into_def write_aggregate_def td_set_def
        write_back_def ndim_def exclude_def)
  show ?thesis using wf da s1 s2 r1 r2 by blast
qed


text \<open>
  Claim C2, amended. On a batch the walk can read (a plain batch whose done values are
  boolean tensors of one shape per node, with or without a spec), the aggregator
  returns, whatever the destination key and \<^verbatim>\<open>write_full_false\<close>, and its answer is true
  if and only if some leaf is true at a node none of whose ancestors has done leaves of
  its own: a node's own leaves prevail over everything below it. In particular a true
  answer always comes from a true leaf.
\<close>

theorem aggregator_counts_governing_leaves:
  "wf_walk spec data \<Longrightarrow>
   (\<exists>data'. u_terminated_or_truncated data spec key write_full_false
              = Inr (some_governing_leaf_true spec data, data'))
   \<and> (some_governing_leaf_true spec data \<longrightarrow> some_leaf_true spec data)"
proof -
  assume wf: "wf_walk spec data"
  from walk_result [OF wf, of key] obtain data' written where
    "inner_terminated_or_truncated data spec key [] []
       = Inr (some_governing_leaf_true spec data, data', written)"
    by blast
  then have "\<exists>data'. u_terminated_or_truncated data spec key write_full_false
              = Inr (some_governing_leaf_true spec data, data')"
    by (simp add: u_terminated_or_truncated_def)
  then show ?thesis using governing_is_leaf by blast
qed

definition docstring_data :: node where
  "docstring_data =
     TD [] [(''done'', Leaf (BoolT [] [True])),
            (''truncated'', Leaf (BoolT [] [False])),
            (''nested'', TD [] [(''done'', Leaf (BoolT [] [False])),
                                (''truncated'', Leaf (BoolT [] [True]))])]"

definition docstring_spec :: done_spec where
  "docstring_spec =
     CompositeSpec [(''done'', LeafSpec), (''truncated'', LeafSpec),
                    (''nested'', CompositeSpec [(''done'', LeafSpec), (''truncated'', LeafSpec)])]"

theorem aggregator_counts_governing_leaves_witness:
  "wf_walk (Some docstring_spec) docstring_data
   \<and> some_governing_leaf_true (Some docstring_spec) docstring_data
   \<and> (\<exists>data'. u_terminated_or_truncated docstring_data (Some docstring_spec) (Some ''_reset'') False
                = Inr (True, data'))
   \<and> some_leaf_true (Some docstring_spec) docstring_data"
proof -
  have wf: "wf_walk (Some docstring_spec) docstring_data"
    by (simp add: docstring_spec_def docstring_data_def good_leaf_def)
  have "direct_at (Some docstring_spec) docstring_data [] =
      [Leaf (BoolT [] [True]), Leaf (BoolT [] [False])]"
    by (simp add: docstring_spec_def docstring_data_def)
  then have g: "some_governing_leaf_true (Some docstring_spec) docstring_data"
    unfolding some_governing_leaf_true_def by (intro exI [of _ "[]"]) simp
  from aggregator_counts_governing_leaves [OF wf, of "Some ''_reset''" False] g wf
  show ?thesis by simp
qed

text \<open>
  Claim C5. On a batch the walk can read, every entry the walk adds to the batch is
  recorded in \<^verbatim>\<open>list_of_keys\<close>, each record being a key path that ends in the destination
  key. When the answer is false and \<^verbatim>\<open>write_full_false\<close> is false, the call returns the
  walked batch with the recorded paths excluded: none of them is left, and the returned
  batch holds no entry that the input batch did not hold, at any depth.
\<close>

theorem written_markers_are_removed:
  "wf_walk spec data \<Longrightarrow>
   (\<exists>any_eot data' written.
      inner_terminated_or_truncated data spec key [] [] = Inr (any_eot, data', written)
      \<and> (\<forall>p. has_path data' p \<longrightarrow> has_path data p \<or> p \<in> set written)
      \<and> (\<forall>p \<in> set written. p \<noteq> [] \<and> key = Some (last p))
      \<and> (\<not> any_eot \<longrightarrow>
            u_terminated_or_truncated data spec key False = Inr (False, exclude data' written)
            \<and> (\<forall>p \<in> set written. \<not> has_path (exclude data' written) p)
            \<and> (\<forall>p. has_path (exclude data' written) p \<longrightarrow> has_path data p \<and> p \<notin> set written)))"
proof -
  assume wf: "wf_walk spec data"
  from walk_result [OF wf, of key] obtain data' written where
    i: "inner_terminated_or_truncated data spec key [] []
       = Inr (some_governing_leaf_true spec data, data', written)"
    and fr: "\<forall>p. has_path data' p \<longrightarrow> has_path data p \<or> p \<in> set written"
    and ne: "\<forall>p \<in> set written. p \<noteq> [] \<and> key = Some (last p)"
    by blast
  have gone: "\<forall>p \<in> set written. \<not> has_path (exclude data' written) p"
    using ne exclude_gone by blast
  have old: "\<forall>p. has_path (exclude data' written) p \<longrightarrow> has_path data p \<and> p \<notin> set written"
    using gone fr exclude_no_new by blast
  have "\<not> some_governing_leaf_true spec data \<longrightarrow>
      u_terminated_or_truncated data spec key False = Inr (False, exclude data' written)"
    using i by (simp add: u_terminated_or_truncated_def)
  then show ?thesis using i fr ne gone old by blast
qed

theorem written_markers_are_removed_witness:
  "wf_walk None
     (TD [] [(''done'', Leaf (BoolT [1] [False])),
             (''agents'', TD [] [(''done'', Leaf (BoolT [1] [True]))])])
   \<and> inner_terminated_or_truncated
       (TD [] [(''done'', Leaf (BoolT [1] [False])),
               (''agents'', TD [] [(''done'', Leaf (BoolT [1] [True]))])])
       None (Some ''_reset'') [] []
     = Inr (False,
            TD [] [(''done'', Leaf (BoolT [1] [False])),
                   (''agents'', TD [] [(''done'', Leaf (BoolT [1] [True])),
                                       (''_reset'', Leaf (BoolT [] [True]))]),
                   (''_reset'', Leaf (BoolT [] [False]))],
            [[''agents'', ''_reset''], [''_reset'']])
   \<and> u_terminated_or_truncated
       (TD [] [(''done'', Leaf (BoolT [1] [False])),
               (''agents'', TD [] [(''done'', Leaf (BoolT [1] [True]))])])
       None (Some ''_reset'') False
     = Inr (False,
            TD [] [(''done'', Leaf (BoolT [1] [False])),
                   (''agents'', TD [] [(''done'', Leaf (BoolT [1] [True]))])])
   \<and> \<not> has_path
         (TD [] [(''done'', Leaf (BoolT [1] [False])),
                 (''agents'', TD [] [(''done'', Leaf (BoolT [1] [True]))])])
         [''agents'', ''_reset'']
   \<and> \<not> has_path
         (TD [] [(''done'', Leaf (BoolT [1] [False])),
                 (''agents'', TD [] [(''done'', Leaf (BoolT [1] [True]))])])
         [''_reset'']"
proof -
  let ?d = "TD [] [(''done'', Leaf (BoolT [1] [False])),
             (''agents'', TD [] [(''done'', Leaf (BoolT [1] [True]))])]"
  have wf: "wf_walk None ?d" by (simp add: good_leaf_def DONE_NAMES_def)
  have i: "inner_terminated_or_truncated ?d None (Some ''_reset'') [] []
     = Inr (False,
            TD [] [(''done'', Leaf (BoolT [1] [False])),
                   (''agents'', TD [] [(''done'', Leaf (BoolT [1] [True])),
                                       (''_reset'', Leaf (BoolT [] [True]))]),
                   (''_reset'', Leaf (BoolT [] [False]))],
            [[''agents'', ''_reset''], [''_reset'']])"
    by (simp add: inner_terminated_or_truncated.simps td_items_def
        get_def scan_item_def or_into_def DONE_NAMES_def write_aggregate_def td_set_def
        write_back_def ndim_def)
  from written_markers_are_removed [OF wf, of "Some ''_reset''"] i
  have "u_terminated_or_truncated ?d None (Some ''_reset'') False
      = Inr (False, exclude (TD [] [(''done'', Leaf (BoolT [1] [False])),
                   (''agents'', TD [] [(''done'', Leaf (BoolT [1] [True])),
                                       (''_reset'', Leaf (BoolT [] [True]))]),
                   (''_reset'', Leaf (BoolT [] [False]))]) [[''agents'', ''_reset''], [''_reset'']])"
    by auto
  then have u: "u_terminated_or_truncated ?d None (Some ''_reset'') False = Inr (False, ?d)"
    by (simp add: exclude_def)
  show ?thesis using wf i u by simp
qed

section \<open>Partial and absent reset keys\<close>

lemma length_chunks [simp]: "length (chunks n c xs) = n"
  by (induction n c xs rule: chunks.induct) auto

definition reset_ok :: "nat list \<Rightarrow> reset_value \<Rightarrow> bool" where
  "reset_ok bs r = (case r of PyFalse \<Rightarrow> True | ResetT t \<Rightarrow> (\<exists>d. t = BoolT bs d \<and> length d = prod_list bs))"

lemma or_reset_good:
  assumes "take (length bs) s = bs" and "length d = prod_list s" and "reset_ok bs r"
  shows "\<exists>d'. or_reset (length bs) r (Leaf (BoolT s d)) = Inr (ResetT (BoolT bs d')) \<and> length d' = prod_list bs"
proof -
  let ?t = "if ndim (BoolT s d) > length bs then any_from (length bs) (BoolT s d) else BoolT s d"
  have "\<exists>d1. ?t = BoolT bs d1 \<and> length d1 = prod_list bs"
  proof (cases "length s > length bs")
    case True
    then show ?thesis using assms(1) by (simp add: ndim_def)
  next
    case False
    then have "length s \<le> length bs" by simp
    with assms(1) have "s = bs" by (metis take_all)
    with False assms(2) show ?thesis by (simp add: ndim_def)
  qed
  then obtain d1 where t: "?t = BoolT bs d1" and l1: "length d1 = prod_list bs" by blast
  show ?thesis
  proof (cases r)
    case PyFalse
    then show ?thesis using t l1 by (simp add: or_reset_def Let_def del: any_from.simps)
  next
    case (ResetT t0)
    with assms(3) obtain d0 where "t0 = BoolT bs d0" "length d0 = prod_list bs"
      by (auto simp: reset_ok_def)
    then show ?thesis using ResetT t l1 by (simp add: or_reset_def Let_def del: any_from.simps)
  qed
qed

lemma entry_cases:
  assumes "reset_entry_ok data k"
  obtains (absent) "get_path data k = Inr None"
    | (present) s d where "get_path data k = Inr (Some (Leaf (BoolT s d)))"
        "take (length (batch_size data)) s = batch_size data" "length d = prod_list s"
  using assms unfolding reset_entry_ok_def
  by (auto split: sum.splits option.splits node.splits tensor.splits)

lemma loop_after_absent:
  assumes "\<forall>k \<in> set ks. reset_entry_ok data k"
  shows "reset_keys_loop data n ks reset (Some True) =
     (if \<exists>k \<in> set ks. get_path data k \<noteq> Inr None then Inl (ValueError PARTIAL_MISSING_ERR)
      else Inr (reset, Some True))"
  using assms
proof (induction ks)
  case Nil
  then show ?case by simp
next
  case (Cons k ks)
  then have "reset_entry_ok data k" by simp
  then show ?case
  proof (cases rule: entry_cases)
    case absent
    with Cons show ?thesis by simp
  next
    case (present s d)
    then show ?thesis by simp
  qed
qed

lemma loop_after_present:
  assumes "\<forall>k \<in> set ks. reset_entry_ok data k" and "reset_ok (batch_size data) reset"
  shows "if \<exists>k \<in> set ks. get_path data k = Inr None
         then reset_keys_loop data (length (batch_size data)) ks reset (Some False)
                = Inl (ValueError PARTIAL_MISSING_ERR)
         else (\<exists>r. reset_keys_loop data (length (batch_size data)) ks reset (Some False)
                = Inr (r, Some False) \<and> reset_ok (batch_size data) r)"
  using assms
proof (induction ks arbitrary: reset)
  case Nil
  then show ?case by simp
next
  case (Cons k ks)
  then have "reset_entry_ok data k" by simp
  then show ?case
  proof (cases rule: entry_cases)
    case absent
    then show ?thesis by simp
  next
    case (present s d)
    from or_reset_good [OF present(2,3) Cons.prems(2)] obtain d' where
      o: "or_reset (length (batch_size data)) reset (Leaf (BoolT s d))
            = Inr (ResetT (BoolT (batch_size data) d'))"
      and l: "length d' = prod_list (batch_size data)" by blast
    have ok: "reset_ok (batch_size data) (ResetT (BoolT (batch_size data) d'))"
      using l by (simp add: reset_ok_def)
    have rest: "\<forall>k \<in> set ks. reset_entry_ok data k" using Cons.prems(1) by simp
    from Cons.IH [OF rest ok] present(1) o show ?thesis by simp
  qed
qed

lemma loop_from_start:
  assumes "\<forall>k \<in> set ks. reset_entry_ok data k"
  shows "reset_keys_loop data (length (batch_size data)) ks PyFalse None =
           Inl (ValueError PARTIAL_MISSING_ERR)
         \<longleftrightarrow> (\<exists>k \<in> set ks. get_path data k = Inr None) \<and> (\<exists>k \<in> set ks. get_path data k \<noteq> Inr None)"
proof (cases ks)
  case Nil
  then show ?thesis by simp
next
  case (Cons k ks')
  from assms Cons have "reset_entry_ok data k" and rest: "\<forall>k \<in> set ks'. reset_entry_ok data k"
    by simp_all
  from this(1) show ?thesis
  proof (cases rule: entry_cases)
    case absent
    then show ?thesis using Cons loop_after_absent [OF rest, of "length (batch_size data)" PyFalse]
      by auto
  next
    case (present s d)
    have ok0: "reset_ok (batch_size data) PyFalse" by (simp add: reset_ok_def)
    from or_reset_good [OF present(2,3) ok0] obtain d' where
      o: "or_reset (length (batch_size data)) PyFalse (Leaf (BoolT s d))
            = Inr (ResetT (BoolT (batch_size data) d'))"
      and l: "length d' = prod_list (batch_size data)" by blast
    have ok: "reset_ok (batch_size data) (ResetT (BoolT (batch_size data) d'))"
      using l by (simp add: reset_ok_def)
    from loop_after_present [OF rest ok] present(1) o Cons show ?thesis
      by (auto split: if_splits)
  qed
qed

lemma loop_all_absent:
  assumes "\<forall>k \<in> set ks. get_path data k = Inr None"
  shows "reset_keys_loop data n ks reset has_missing
       = Inr (reset, if ks = [] then has_missing else Some True) \<or> has_missing = Some False \<and> ks \<noteq> []"
  using assms
proof (induction ks arbitrary: has_missing)
  case Nil
  then show ?case by simp
next
  case (Cons k ks)
  from Cons.IH [of "Some True"] Cons.prems show ?case by auto
qed


text \<open>
  Claim C9. Let the reset key paths be given, or derived from the done keys (in whatever
  order the set of derived keys is iterated), and let every one of them be absent from
  the batch or hold a boolean tensor that starts with the batch shape. Then
  \<^verbatim>\<open>_aggregate_end_of_traj\<close> raises the \<^verbatim>\<open>ValueError\<close> with the partial-missing message if
  and only if some of the keys are present and some are absent; this depends on the set
  of keys only, not on the order in which present and absent keys come.
\<close>

theorem partial_reset_keys_raise:
  "effective_reset_keys set_order reset_keys done_keys = Some ks \<Longrightarrow>
   \<forall>k \<in> set ks. reset_entry_ok data k \<Longrightarrow>
   (u_aggregate_end_of_traj set_order data reset_keys done_keys
        = Inl (ValueError PARTIAL_MISSING_ERR)
      \<longleftrightarrow> (\<exists>k \<in> set ks. get_path data k = Inr None) \<and> (\<exists>k \<in> set ks. get_path data k \<noteq> Inr None))
   \<and> (\<forall>ks'. set ks' = set ks \<longrightarrow>
         (reset_keys_loop data (length (batch_size data)) ks' PyFalse None
            = Inl (ValueError PARTIAL_MISSING_ERR)
          \<longleftrightarrow> reset_keys_loop data (length (batch_size data)) ks PyFalse None
            = Inl (ValueError PARTIAL_MISSING_ERR)))"
proof -
  assume eff: "effective_reset_keys set_order reset_keys done_keys = Some ks"
    and ok: "\<forall>k \<in> set ks. reset_entry_ok data k"
  note l = loop_from_start [OF ok]
  have "u_aggregate_end_of_traj set_order data reset_keys done_keys = Inl (ValueError PARTIAL_MISSING_ERR)
      \<longleftrightarrow> reset_keys_loop data (length (batch_size data)) ks PyFalse None
            = Inl (ValueError PARTIAL_MISSING_ERR)"
    using eff by (auto simp: u_aggregate_end_of_traj_def Let_def split: sum.splits prod.splits)
  moreover have "\<forall>ks'. set ks' = set ks \<longrightarrow>
         (reset_keys_loop data (length (batch_size data)) ks' PyFalse None
            = Inl (ValueError PARTIAL_MISSING_ERR)
          \<longleftrightarrow> reset_keys_loop data (length (batch_size data)) ks PyFalse None
            = Inl (ValueError PARTIAL_MISSING_ERR))"
  proof (intro allI impI)
    fix ks' assume s: "set ks' = set ks"
    then have ok': "\<forall>k \<in> set ks'. reset_entry_ok data k" using ok by simp
    show "reset_keys_loop data (length (batch_size data)) ks' PyFalse None
            = Inl (ValueError PARTIAL_MISSING_ERR)
          \<longleftrightarrow> reset_keys_loop data (length (batch_size data)) ks PyFalse None
            = Inl (ValueError PARTIAL_MISSING_ERR)"
      unfolding l loop_from_start [OF ok'] s ..
  qed
  ultimately show ?thesis using l by simp
qed

definition reset_example :: node where
  "reset_example =
     TD [2] [(''_reset'', Leaf (BoolT [2, 1] [False, True])),
             (''agents'', TD [2, 3] [(''obs'', Leaf (FloatT [2, 3] [0, 0, 0, 0, 0, 0]))])]"

theorem partial_reset_keys_raise_witness:
  "effective_reset_keys id (Some [[''_reset''], [''agents'', ''_reset'']]) None
     = Some [[''_reset''], [''agents'', ''_reset'']]
   \<and> reset_entry_ok reset_example [''_reset'']
   \<and> reset_entry_ok reset_example [''agents'', ''_reset'']
   \<and> get_path reset_example [''agents'', ''_reset''] = Inr None
   \<and> get_path reset_example [''_reset''] \<noteq> Inr None
   \<and> u_aggregate_end_of_traj id reset_example (Some [[''_reset''], [''agents'', ''_reset'']]) None
       = Inl (ValueError PARTIAL_MISSING_ERR)
   \<and> reset_keys_loop reset_example (length (batch_size reset_example))
         [[''agents'', ''_reset''], [''_reset'']] PyFalse None
       = Inl (ValueError PARTIAL_MISSING_ERR)"
proof -
  let ?ks = "[[''_reset''], [''agents'', ''_reset'']]"
  have e: "effective_reset_keys id (Some ?ks) None = Some ?ks"
    by (simp add: effective_reset_keys_def)
  have a: "get_path reset_example [''agents'', ''_reset''] = Inr None"
    by (simp add: reset_example_def)
  have p: "get_path reset_example [''_reset''] = Inr (Some (Leaf (BoolT [2, 1] [False, True])))"
    by (simp add: reset_example_def)
  have bs: "batch_size reset_example = [2]" by (simp add: reset_example_def)
  have ok: "\<forall>k \<in> set ?ks. reset_entry_ok reset_example k"
    using a p bs by (simp add: reset_entry_ok_def)
  have s: "set [[''agents'', ''_reset''], [''_reset'']] = set ?ks" by auto
  from partial_reset_keys_raise [OF e ok] a p s
  have "u_aggregate_end_of_traj id reset_example (Some ?ks) None = Inl (ValueError PARTIAL_MISSING_ERR)"
    and "reset_keys_loop reset_example (length (batch_size reset_example))
         [[''agents'', ''_reset''], [''_reset'']] PyFalse None
       = Inl (ValueError PARTIAL_MISSING_ERR)"
    by auto
  then show ?thesis using e ok a p by simp
qed

text \<open>
  Claim C10. When the reset key paths (given, or derived from the done keys) are not
  empty and none of them is in the batch, \<^verbatim>\<open>_aggregate_end_of_traj\<close> does not raise and
  does not answer all false: it returns the boolean tensor of the batch's shape whose
  elements are all true.
\<close>

theorem absent_reset_keys_reset_everything:
  "effective_reset_keys set_order reset_keys done_keys = Some ks \<Longrightarrow> ks \<noteq> [] \<Longrightarrow>
   \<forall>k \<in> set ks. get_path data k = Inr None \<Longrightarrow>
   u_aggregate_end_of_traj set_order data reset_keys done_keys
     = Inr (ResetT (ones_bool (batch_size data)))"
proof -
  assume eff: "effective_reset_keys set_order reset_keys done_keys = Some ks"
    and ne: "ks \<noteq> []" and ab: "\<forall>k \<in> set ks. get_path data k = Inr None"
  from loop_all_absent [OF ab, of "length (batch_size data)" PyFalse None] ne
  have "reset_keys_loop data (length (batch_size data)) ks PyFalse None = Inr (PyFalse, Some True)"
    by simp
  then show ?thesis using eff by (simp add: u_aggregate_end_of_traj_def Let_def)
qed

theorem absent_reset_keys_reset_everything_witness:
  "effective_reset_keys rev None (Some [[''done''], [''agents'', ''done'']])
     = Some [[''agents'', ''done''], [''done'']]
   \<and> [[''agents'', ''done''], [''done'']] \<noteq> []
   \<and> get_path reset_example [''agents'', ''done''] = Inr None
   \<and> get_path reset_example [''done''] = Inr None
   \<and> u_aggregate_end_of_traj rev reset_example None (Some [[''done''], [''agents'', ''done'']])
       = Inr (ResetT (BoolT [2] [True, True]))"
proof -
  have e: "effective_reset_keys rev None (Some [[''done''], [''agents'', ''done'']])
     = Some [[''agents'', ''done''], [''done'']]"
    by (simp add: effective_reset_keys_def replace_last_def)
  have ne: "[[''agents'', ''done''], [''done'']] \<noteq> ([] :: key list)" by simp
  have ab: "\<forall>k \<in> set [[''agents'', ''done''], [''done'']]. get_path reset_example k = Inr None"
    by (simp add: reset_example_def)
  have o: "ones_bool (batch_size reset_example) = BoolT [2] [True, True]"
    by (simp add: reset_example_def ones_bool_def numeral_2_eq_2)
  from absent_reset_keys_reset_everything [OF e ne ab] o e ab show ?thesis by simp
qed
section \<open>The reset merge\<close>

subsection \<open>The loop and the set of roots\<close>

lemma udr_loop_append:
  "udr_loop tdr s (ks1 @ ks2) =
     (case udr_loop tdr s ks1 of Inl e \<Rightarrow> Inl e | Inr s' \<Rightarrow> udr_loop tdr s' ks2)"
  by (induction ks1 arbitrary: s) (auto split: sum.splits)

lemma udr_step_roots:
  "udr_step tdr (td, roots) k = Inr (td', roots') \<Longrightarrow> roots' = insert (butlast k) roots"
  by (auto simp: udr_step_def Let_def split: sum.splits prod.splits if_splits)

lemma udr_loop_roots:
  "udr_loop tdr (td, roots) ks = Inr (td', roots') \<Longrightarrow> roots' = roots \<union> butlast ` set ks"
proof (induction ks arbitrary: td roots)
  case Nil
  then show ?case by simp
next
  case (Cons k ks)
  then obtain td1 roots1 where s: "udr_step tdr (td, roots) k = Inr (td1, roots1)"
    and l: "udr_loop tdr (td1, roots1) ks = Inr (td', roots')"
    by (auto split: sum.splits)
  from udr_step_roots [OF s] Cons.IH [OF l] show ?case by auto
qed

lemma udr_step_skip:
  assumes "x \<in> roots" "take (length x) k = x"
    and "node_of tdr k = Inr node_reset" "node_of td k = Inr node0"
    and "pop_path td k = Inr (reset, td')"
  shows "udr_step tdr (td, roots) k = Inr (td', insert (butlast k) roots)"
  using assms by (auto simp: udr_step_def Let_def)

lemma take_prefix_of_owner:
  "take (length x) (butlast k) = x \<Longrightarrow> take (length x) k = x"
  by (metis butlast_conv_take take_take min.absorb1 length_take min.cobounded2 length_butlast
      nat_le_linear take_all)

text \<open>
  Claim C7. In \<^verbatim>\<open>_update_during_reset\<close>, let the loop have run over the keys \<open>earlier\<close>,
  and let the node of the next key \<open>reset_key\<close> be the node of one of them or lie below
  it (the owner \<^verbatim>\<open>k[:-1]\<close> of an earlier key is a prefix of the owner of \<open>reset_key\<close>).
  If the two nodes of \<open>reset_key\<close> can be read, then its turn of the loop only pops its
  signal: the batch goes on as \<^verbatim>\<open>pop\<close> left it, with no update and no merge, and the
  owner of \<open>reset_key\<close> joins the roots. The loop continues from there over the keys
  \<open>later\<close>; when \<open>reset_key\<close> is the last key, the function returns the popped batch.
\<close>

theorem later_keys_of_a_processed_branch_are_skipped:
  assumes "udr_loop tensordict_reset (tensordict, {}) earlier = Inr (tensordict1, roots)"
    and "k \<in> set earlier"
    and "take (length (butlast k)) (butlast reset_key) = butlast k"
    and "node_of tensordict_reset reset_key = Inr node_reset"
    and "node_of tensordict1 reset_key = Inr node"
    and "pop_path tensordict1 reset_key = Inr (reset, tensordict2)"
  shows "udr_loop tensordict_reset (tensordict, {}) (earlier @ reset_key # later) =
           udr_loop tensordict_reset (tensordict2, insert (butlast reset_key) roots) later
         \<and> u_update_during_reset tensordict_reset tensordict (earlier @ [reset_key]) =
           Inr tensordict2"
proof -
  from udr_loop_roots [OF assms(1)] assms(2) have "butlast k \<in> roots" by auto
  moreover from assms(3) have "take (length (butlast k)) reset_key = butlast k"
    by (rule take_prefix_of_owner)
  ultimately have "udr_step tensordict_reset (tensordict1, roots) reset_key =
      Inr (tensordict2, insert (butlast reset_key) roots)"
    using assms(4-6) by (rule udr_step_skip)
  then show ?thesis
    using assms(1) by (simp add: udr_loop_append u_update_during_reset_def)
qed

theorem later_keys_of_a_processed_branch_are_skipped_witness:
  "udr_loop reset_batch (current_batch, {}) [[''_reset'']] = Inr (after_first_key, {[]})
   \<and> pop_path after_first_key [''agents'', ''_reset'']
       = Inr (Some (Leaf (FloatT [2, 1] [0, 0])), del_path after_first_key [''agents'', ''_reset''])
   \<and> u_update_during_reset reset_batch current_batch [[''_reset''], [''agents'', ''_reset'']]
       = Inr (TD [2]
                [(''obs'', Leaf (FloatT [2, 2] [10, 20, 3, 4])),
                 (''action'', Leaf (FloatT [2] [0, 6])),
                 (''agents'', TD [2] [(''state'', Leaf (FloatT [2] [70, 8]))])])"
proof -
  have l: "udr_loop reset_batch (current_batch, {}) [[''_reset'']] = Inr (after_first_key, {[]})"
    by (simp add: udr_step_def node_of_def pop_path_def merge_node_def reset_mask_def
        current_batch_def reset_batch_def td_where.simps get_opt_def keys_opt_def
        where_pad_def where_tensor_def expand_as_right_def get_def Let_def
        numeral_2_eq_2 after_first_key_def)
  have m: "[''_reset''] \<in> set [[''_reset'']]" by simp
  have p: "take (length (butlast [''_reset''])) (butlast [''agents'', ''_reset''])
      = butlast [''_reset'']" by simp
  have nr: "node_of reset_batch [''agents'', ''_reset'']
      = Inr (TD [2] [(''state'', Leaf (FloatT [2] [70, 80]))])"
    by (simp add: node_of_def get_nested_def reset_batch_def)
  have n: "node_of after_first_key [''agents'', ''_reset'']
      = Inr (TD [2] [(''state'', Leaf (FloatT [2] [70, 8])),
                     (''_reset'', Leaf (FloatT [2, 1] [0, 0]))])"
    by (simp add: node_of_def get_nested_def after_first_key_def)
  have pp: "pop_path after_first_key [''agents'', ''_reset'']
      = Inr (Some (Leaf (FloatT [2, 1] [0, 0])), del_path after_first_key [''agents'', ''_reset''])"
    by (simp add: pop_path_def after_first_key_def)
  have d: "del_path after_first_key [''agents'', ''_reset'']
      = TD [2]
          [(''obs'', Leaf (FloatT [2, 2] [10, 20, 3, 4])),
           (''action'', Leaf (FloatT [2] [0, 6])),
           (''agents'', TD [2] [(''state'', Leaf (FloatT [2] [70, 8]))])]"
    by (simp add: after_first_key_def)
  from later_keys_of_a_processed_branch_are_skipped [OF l m p nr n pp, of "[]"] l pp d
  show ?thesis by simp
qed
section \<open>The merge of one reset key\<close>


lemma plain_batch_simp [simp]: "plain_batch (TD bs es) = plain (TD bs es)"
  by (simp add: plain_batch_def)












































end
